theory Spec2Isabelle
  imports Complex_Main "HOL-Library.Word"
begin

unbundle bit_operations_syntax

section \<open>Conventions of the embedding\<close>

text \<open>
  The program is \<^verbatim>\<open>src/server.js\<close>, a Node.js game server. Its numbers are modelled
  as follows: a field that only ever holds integers (scores, levels, sizes, counters,
  dash charges, clock readings in milliseconds, colours, ids) is an \<open>int\<close>; a field that
  holds coordinates, velocities, angles or durations in seconds is a \<open>real\<close>, which
  idealises the IEEE double of the source (no rounding, no NaN, no infinities).
  The bitwise operators of JavaScript act on the 32-bit two's complement image of their
  operands and are written out on \<open>32 word\<close>.

  \<^verbatim>\<open>Date.now()\<close> and \<^verbatim>\<open>Math.random()\<close> are the two sources of input that are
  not arguments of the source functions. They are read from an explicit environment,
  which every function that calls them takes and returns.
\<close>

subsection \<open>CONFIG\<close>

definition maxInputRate :: int where "maxInputRate = 120"
definition maxVelocity :: real where "maxVelocity = 500"
definition friction :: real where "friction = 0.95"
definition acceleration :: real where "acceleration = 200"
definition dashPower :: real where "dashPower = 300"
definition collisionDamage :: int where "collisionDamage = 100"

subsection \<open>JavaScript integer operators\<close>

definition js_and :: "int \<Rightarrow> int \<Rightarrow> int" where
  "js_and a b = sint ((word_of_int a :: 32 word) AND word_of_int b)"

definition js_or :: "int \<Rightarrow> int \<Rightarrow> int" where
  "js_or a b = sint ((word_of_int a :: 32 word) OR word_of_int b)"

definition js_shl :: "int \<Rightarrow> nat \<Rightarrow> int" where
  "js_shl a k = sint (push_bit (k mod 32) (word_of_int a :: 32 word))"

definition js_sar :: "int \<Rightarrow> nat \<Rightarrow> int" where
  "js_sar a k = sint (signed_drop_bit (k mod 32) (word_of_int a :: 32 word))"

definition js_ushr :: "int \<Rightarrow> nat \<Rightarrow> int" where
  "js_ushr a k = uint (drop_bit (k mod 32) (word_of_int a :: 32 word))"

text \<open>\<^verbatim>\<open>Math.atan2(y, x)\<close>, on reals (signed zeros do not exist here).\<close>

definition atan2 :: "real \<Rightarrow> real \<Rightarrow> real" where
  "atan2 y x =
     (if 0 < x then arctan (y / x)
      else if x < 0 then (if 0 \<le> y then arctan (y / x) + pi else arctan (y / x) - pi)
      else if 0 < y then pi / 2
      else if y < 0 then - (pi / 2)
      else 0)"

subsection \<open>The environment: clock and random source\<close>

record env =
  clock :: "nat \<Rightarrow> int"
  clockReads :: nat
  random :: "nat \<Rightarrow> real"
  randomDraws :: nat

definition Date_now :: "env \<Rightarrow> int \<times> env" where
  "Date_now e = (clock e (clockReads e), e\<lparr>clockReads := Suc (clockReads e)\<rparr>)"

definition Math_random :: "env \<Rightarrow> real \<times> env" where
  "Math_random e = (random e (randomDraws e), e\<lparr>randomDraws := Suc (randomDraws e)\<rparr>)"

section \<open>InputValidator\<close>

record rate_entry =
  count :: int
  lastReset :: int

type_synonym playerInputs = "int \<rightharpoonup> rate_entry"

text \<open>
  \<^verbatim>\<open>validateInputRate(playerId)\<close>: the entry is created on the first call, the window is
  restarted when more than 1000 ms have passed since \<open>lastReset\<close>, the counter is
  incremented on every call, and the call is accepted while the counter is at most
  \<open>maxInputRate\<close>.
\<close>

definition validateInputRate :: "playerInputs \<Rightarrow> int \<Rightarrow> env \<Rightarrow> (bool \<times> playerInputs) \<times> env" where
  "validateInputRate m playerId e =
     (let (now, e1) = Date_now e;
          d = (case m playerId of None \<Rightarrow> \<lparr>count = 0, lastReset = now\<rparr> | Some d0 \<Rightarrow> d0);
          d1 = (if now - lastReset d > 1000 then d\<lparr>count := 0, lastReset := now\<rparr> else d);
          d2 = d1\<lparr>count := count d1 + 1\<rparr>
      in ((count d2 \<le> maxInputRate, m(playerId \<mapsto> d2)), e1))"

text \<open>A run of \<open>n\<close> consecutive calls for one connection; the answers are returned in order.\<close>

fun inputRateCalls :: "nat \<Rightarrow> playerInputs \<Rightarrow> int \<Rightarrow> env \<Rightarrow> (bool list \<times> playerInputs) \<times> env" where
  "inputRateCalls 0 m playerId e = (([], m), e)"
| "inputRateCalls (Suc n) m playerId e =
     (let ((r, m1), e1) = validateInputRate m playerId e;
          ((rs, m2), e2) = inputRateCalls n m1 playerId e1
      in ((r # rs, m2), e2))"


section \<open>Vec2 and NarwhalePart\<close>

datatype error = TypeError | RangeError

record Vec2 =
  vec_x :: real
  vec_y :: real

definition Vec2_length :: "Vec2 \<Rightarrow> real" where
  "Vec2_length v = sqrt (vec_x v * vec_x v + vec_y v * vec_y v)"

definition Vec2_distance :: "Vec2 \<Rightarrow> Vec2 \<Rightarrow> real" where
  "Vec2_distance a b =
     (let dx = vec_x a - vec_x b; dy = vec_y a - vec_y b in sqrt (dx * dx + dy * dy))"

record NarwhalePart =
  part_x :: real
  part_y :: real
  part_vx :: real
  part_vy :: real
  part_rot :: real
  part_vt :: real
  part_oriRot :: real

definition NarwhalePart_new :: NarwhalePart where
  "NarwhalePart_new =
     \<lparr>part_x = 0, part_y = 0, part_vx = 0, part_vy = 0, part_rot = 0, part_vt = 0, part_oriRot = 0\<rparr>"

definition NarwhalePart_update :: "real \<Rightarrow> NarwhalePart \<Rightarrow> NarwhalePart" where
  "NarwhalePart_update dt q =
     q\<lparr>part_x := part_x q + part_vx q * dt,
       part_y := part_y q + part_vy q * dt,
       part_rot := part_rot q + part_vt q * dt\<rparr>"

section \<open>Player\<close>

record room_options =
  width :: real
  height :: real

text \<open>
  The fields of a \<^verbatim>\<open>Player\<close>. The socket is represented by what the player's code
  observes of it: whether it is present and open, and the frames sent on it.
  \<^verbatim>\<open>uid\<close>, \<^verbatim>\<open>inputFlags\<close>, \<^verbatim>\<open>inputSequence\<close> and \<^verbatim>\<open>lastInputTime\<close> are
  written by the constructor only and never read; they are left out.
\<close>

record Player =
  player_id :: int
  socketOpen :: bool
  sent :: "8 word list list"
  name :: string
  color :: int
  team :: int
  player_size :: int
  alpha :: real
  level :: int
  score :: int
  kills :: int
  deaths :: int
  pos :: Vec2
  vel :: Vec2
  angle :: real
  speed :: real
  maxSpeed :: int
  parts :: "NarwhalePart list"
  breakPoint :: nat
  maxDash :: int
  curDash :: int
  overDash :: real
  dashRegenRate :: real
  tuskRatio :: real
  decoration :: int
  invincibleDur :: real
  skincode :: int
  isAlive :: bool
  isSpawned :: bool
  respawnTime :: int
  currentRoom :: "int option"
  targetX :: real
  targetY :: real
  lastPosition :: Vec2
  lastDashTime :: int

text \<open>The registry \<^verbatim>\<open>global.gameServer.rooms\<close>, as far as a player reads it: the
  options of the room with a given id.\<close>

type_synonym rooms = "int \<rightharpoonup> room_options"

definition lookupRoom :: "rooms \<Rightarrow> Player \<Rightarrow> room_options option" where
  "lookupRoom rs p = (case currentRoom p of None \<Rightarrow> None | Some r \<Rightarrow> rs r)"

subsection \<open>Constructor\<close>

definition Math_round :: "real \<Rightarrow> int" where
  "Math_round r = \<lfloor>r + 1/2\<rfloor>"

definition hue2rgb :: "real \<Rightarrow> real \<Rightarrow> real \<Rightarrow> real" where
  "hue2rgb p q t0 =
     (let t1 = (if t0 < 0 then t0 + 1 else t0);
          t = (if t1 > 1 then t1 - 1 else t1)
      in if t < 1/6 then p + (q - p) * 6 * t
         else if t < 1/2 then q
         else if t < 2/3 then p + (q - p) * (2/3 - t) * 6
         else p)"

definition hslToRgb :: "real \<Rightarrow> real \<Rightarrow> real \<Rightarrow> int" where
  "hslToRgb h s l =
     (let (r, g, b) =
        (if s = 0 then (l, l, l)
         else (let q = (if l < 1/2 then l * (1 + s) else l + s - l * s);
                   p = 2 * l - q
               in (hue2rgb p q (h + 1/3), hue2rgb p q h, hue2rgb p q (h - 1/3))))
      in js_or (js_or (js_shl (Math_round (r * 255)) 16) (js_shl (Math_round (g * 255)) 8))
               (Math_round (b * 255)))"

definition randomColor :: "env \<Rightarrow> int \<times> env" where
  "randomColor e = (let (h, e1) = Math_random e in (hslToRgb h 0.9 0.635, e1))"

text \<open>\<^verbatim>\<open>initializeParts\<close>: eleven parts, laid out to the left of the head.\<close>

definition initializeParts :: "Vec2 \<Rightarrow> real \<Rightarrow> NarwhalePart list" where
  "initializeParts ps ang =
     map (\<lambda>i. NarwhalePart_new\<lparr>part_x := vec_x ps - real i * 20, part_y := vec_y ps, part_rot := ang\<rparr>)
       [0..<11]"

definition Player_new :: "int \<Rightarrow> bool \<Rightarrow> string \<Rightarrow> env \<Rightarrow> Player \<times> env" where
  "Player_new ident sock nm e =
     (let (col, e1) = randomColor e;
          (r1, e2) = Math_random e1;
          (r2, e3) = Math_random e2;
          (r3, e4) = Math_random e3;
          (now, e5) = Date_now e4;
          ps = \<lparr>vec_x = 6400 / 2, vec_y = 6400 / 2\<rparr>;
          ang = r2 * pi * 2
      in (\<lparr>player_id = ident, socketOpen = sock, sent = [],
           name = take 16 (if nm = [] then ''Narwhal'' else nm),
           color = col, team = (if r1 > 0.5 then 1 else -1),
           player_size = 36, alpha = 1.0, level = 1, score = 0, kills = 0, deaths = 0,
           pos = ps, vel = \<lparr>vec_x = 0, vec_y = 0\<rparr>, angle = ang, speed = 0, maxSpeed = 150,
           parts = initializeParts ps ang, breakPoint = 11,
           maxDash = 5, curDash = 5, overDash = 0, dashRegenRate = 0.6,
           tuskRatio = 0.5, decoration = 0, invincibleDur = 0,
           skincode = \<lfloor>r3 * 18\<rfloor>,
           isAlive = True, isSpawned = False, respawnTime = 0, currentRoom = None,
           targetX = 0.001, targetY = 0, lastPosition = ps, lastDashTime = 0\<rparr>, e5))"


subsection \<open>spawn\<close>

text \<open>The loop of \<^verbatim>\<open>spawn\<close> over the parts, from index \<open>i\<close> on.\<close>

fun spawnParts :: "nat \<Rightarrow> Vec2 \<Rightarrow> real \<Rightarrow> NarwhalePart list \<Rightarrow> NarwhalePart list" where
  "spawnParts i ps ang [] = []"
| "spawnParts i ps ang (q # qs) =
     q\<lparr>part_x := vec_x ps - real i * 20, part_y := vec_y ps, part_vx := 0, part_vy := 0,
       part_rot := ang\<rparr> # spawnParts (Suc i) ps ang qs"

definition spawn :: "room_options \<Rightarrow> Player \<Rightarrow> env \<Rightarrow> Player \<times> env" where
  "spawn room p e =
     (let w = width room; h = height room;
          (rx, e1) = Math_random e;
          (ry, e2) = Math_random e1;
          ps = \<lparr>vec_x = rx * (w - 400) + 200, vec_y = ry * (h - 400) + 200\<rparr>
      in (p\<lparr>isAlive := True, isSpawned := True, pos := ps,
            vel := \<lparr>vec_x = 0, vec_y = 0\<rparr>, invincibleDur := 2.0, curDash := maxDash p,
            player_size := 36, level := 1,
            parts := spawnParts 0 ps (angle p) (parts p),
            lastPosition := ps\<rparr>, e2))"

subsection \<open>The steps of an alive tick\<close>

definition processMovement :: "real \<Rightarrow> Player \<Rightarrow> Player" where
  "processMovement dt p =
     (let dx = targetX p - vec_x (pos p); dy = targetY p - vec_y (pos p);
          dist = sqrt (dx * dx + dy * dy);
          p1 = (if dist > 10 then
                  (let nx = dx / dist; ny = dy / dist;
                       v1 = \<lparr>vec_x = vec_x (vel p) + nx * acceleration * dt,
                             vec_y = vec_y (vel p) + ny * acceleration * dt\<rparr>;
                       sp = sqrt (vec_x v1 * vec_x v1 + vec_y v1 * vec_y v1);
                       v2 = (if sp > real_of_int (maxSpeed p)
                             then \<lparr>vec_x = (vec_x v1 / sp) * real_of_int (maxSpeed p),
                                   vec_y = (vec_y v1 / sp) * real_of_int (maxSpeed p)\<rparr>
                             else v1)
                   in p\<lparr>vel := v2, angle := atan2 dy dx\<rparr>)
                else p);
          v3 = \<lparr>vec_x = vec_x (vel p1) * friction, vec_y = vec_y (vel p1) * friction\<rparr>;
          ps = \<lparr>vec_x = vec_x (pos p1) + vec_x v3 * dt, vec_y = vec_y (pos p1) + vec_y v3 * dt\<rparr>
      in p1\<lparr>vel := v3, pos := ps, speed := sqrt (vec_x v3 * vec_x v3 + vec_y v3 * vec_y v3)\<rparr>)"

text \<open>
  The two branches of the loop body of \<^verbatim>\<open>updateParts\<close>: a part that follows its
  predecessor \<open>prev\<close> (already updated in this tick), and the part at the break point,
  which moves as a free body.
\<close>

definition chainFollow :: "int \<Rightarrow> NarwhalePart \<Rightarrow> NarwhalePart \<Rightarrow> NarwhalePart" where
  "chainFollow sz prev q =
     (let seg = 25 + real_of_int sz * 0.2;
          tx = part_x prev - cos (part_rot prev) * seg;
          ty = part_y prev - sin (part_rot prev) * seg;
          x1 = part_x q + (tx - part_x q) * 0.4;
          y1 = part_y q + (ty - part_y q) * 0.4;
          dx = part_x prev - x1; dy = part_y prev - y1;
          r = atan2 dy dx
      in q\<lparr>part_x := x1, part_y := y1, part_rot := r, part_oriRot := r\<rparr>)"

definition freeBody :: "real \<Rightarrow> NarwhalePart \<Rightarrow> NarwhalePart" where
  "freeBody dt q =
     (let q1 = NarwhalePart_update dt q
      in q1\<lparr>part_vx := part_vx q1 * 0.98, part_vy := part_vy q1 * 0.98,
            part_vt := part_vt q1 * 0.95\<rparr>)"

text \<open>The loop \<^verbatim>\<open>for (let i=1; i<this.parts.length; i++)\<close>, at index \<open>i\<close>, with the
  part at \<open>i - 1\<close> as it stands after its own update.\<close>

fun updatePartsFrom :: "nat \<Rightarrow> nat \<Rightarrow> int \<Rightarrow> real \<Rightarrow> NarwhalePart \<Rightarrow> NarwhalePart list \<Rightarrow> NarwhalePart list" where
  "updatePartsFrom i bp sz dt prev [] = []"
| "updatePartsFrom i bp sz dt prev (q # qs) =
     (let q1 = (if i \<noteq> bp then chainFollow sz prev q else freeBody dt q)
      in q1 # updatePartsFrom (Suc i) bp sz dt q1 qs)"

text \<open>\<^verbatim>\<open>this.parts[0].x = ...\<close> raises a TypeError when there is no part.\<close>

definition updateParts :: "real \<Rightarrow> Player \<Rightarrow> error + Player" where
  "updateParts dt p =
     (case parts p of
        [] \<Rightarrow> Inl TypeError
      | q # qs \<Rightarrow>
          (let q0 = q\<lparr>part_x := vec_x (pos p), part_y := vec_y (pos p), part_rot := angle p,
                      part_vx := vec_x (vel p), part_vy := vec_y (vel p)\<rparr>
           in Inr (p\<lparr>parts := q0 # updatePartsFrom 1 (breakPoint p) (player_size p) dt q0 qs\<rparr>)))"

definition clampToWorld :: "rooms \<Rightarrow> Player \<Rightarrow> Player" where
  "clampToWorld rs p =
     (case lookupRoom rs p of
        None \<Rightarrow> p
      | Some room \<Rightarrow>
          (let margin = 100
           in p\<lparr>pos := \<lparr>vec_x = max margin (min (width room - margin) (vec_x (pos p))),
                         vec_y = max margin (min (height room - margin) (vec_y (pos p)))\<rparr>\<rparr>))"

definition updateSize :: "Player \<Rightarrow> Player" where
  "updateSize p =
     (let lv = score p div 100 + 1
      in p\<lparr>level := lv, player_size := 36 + (lv - 1) * 3, maxSpeed := max 80 (150 - (lv - 1) * 5)\<rparr>)"

subsection \<open>update\<close>

definition update :: "real \<Rightarrow> rooms \<Rightarrow> Player \<Rightarrow> env \<Rightarrow> (error + Player) \<times> env" where
  "update dt rs p e =
     (if \<not> isAlive p then
        (let (now, e1) = Date_now e
         in if now > respawnTime p then
              (case lookupRoom rs p of
                 Some room \<Rightarrow> (let (p1, e2) = spawn room p e1 in (Inr p1, e2))
               | None \<Rightarrow> (Inr p, e1))
            else (Inr p, e1))
      else
        (let p1 = p\<lparr>invincibleDur := max 0 (invincibleDur p - dt)\<rparr>;
             p2 = (if curDash p1 < maxDash p1 then
                     (let p1a = p1\<lparr>overDash := overDash p1 + dt * dashRegenRate p1\<rparr>
                      in if overDash p1a \<ge> 1.0
                         then p1a\<lparr>curDash := min (maxDash p1a) (curDash p1a + 1), overDash := 0\<rparr>
                         else p1a)
                   else p1)
         in case updateParts dt (processMovement dt p2) of
              Inl err \<Rightarrow> (Inl err, e)
            | Inr p3 \<Rightarrow>
                (let p4 = updateSize (clampToWorld rs p3)
                 in (Inr (p4\<lparr>lastPosition := pos p4\<rparr>), e))))"

subsection \<open>Commands\<close>

definition setTarget :: "real \<Rightarrow> real \<Rightarrow> rooms \<Rightarrow> Player \<Rightarrow> Player" where
  "setTarget tx ty rs p =
     (case lookupRoom rs p of
        None \<Rightarrow> p
      | Some room \<Rightarrow> p\<lparr>targetX := max 0 (min (width room) tx),
                         targetY := max 0 (min (height room) ty)\<rparr>)"

text \<open>\<^verbatim>\<open>player.lastDashTime && ...\<close>: a \<open>lastDashTime\<close> of 0 is falsy and skips the
  spam check.\<close>

definition validateDash :: "Player \<Rightarrow> env \<Rightarrow> bool \<times> env" where
  "validateDash p e =
     (let (now, e1) = Date_now e
      in if curDash p \<le> 0 then (False, e1)
         else if lastDashTime p \<noteq> 0 \<and> now - lastDashTime p < 100 then (False, e1)
         else (True, e1))"

definition useDash :: "Player \<Rightarrow> env \<Rightarrow> (bool \<times> Player) \<times> env" where
  "useDash p e =
     (let (ok, e1) = validateDash p e
      in if \<not> ok then ((False, p), e1)
         else if curDash p > 0 then
           (let (now, e2) = Date_now e1
            in ((True, p\<lparr>curDash := curDash p - 1, lastDashTime := now,
                         vel := \<lparr>vec_x = vec_x (vel p) + cos (angle p) * dashPower,
                                 vec_y = vec_y (vel p) + sin (angle p) * dashPower\<rparr>\<rparr>), e2))
         else ((False, p), e1))"

subsection \<open>Damage and death\<close>

definition OPCODE_RIP :: "8 word" where "OPCODE_RIP = 34"

definition die :: "Player \<Rightarrow> env \<Rightarrow> Player \<times> env" where
  "die p e =
     (let (now, e1) = Date_now e
      in (p\<lparr>isAlive := False, isSpawned := False, deaths := deaths p + 1,
            respawnTime := now + 3000,
            sent := (if socketOpen p then sent p @ [[OPCODE_RIP]] else sent p)\<rparr>, e1))"

text \<open>
  The \<^verbatim>\<open>attacker\<close> argument of \<^verbatim>\<open>takeDamage\<close> is a reference: it is null, or the
  victim itself, or another player object, which the call may modify.
\<close>

datatype 'a attacker = Null | This | Other 'a

definition takeDamage :: "Player \<Rightarrow> int \<Rightarrow> Player attacker \<Rightarrow> env \<Rightarrow> (bool \<times> Player \<times> Player attacker) \<times> env" where
  "takeDamage p amount att e =
     (if invincibleDur p > 0 then ((False, p, att), e)
      else
        (let att1 = (case att of
                       Other a \<Rightarrow> Other (a\<lparr>kills := kills a + 1, score := score a + (100 + level p * 20)\<rparr>)
                     | _ \<Rightarrow> att);
             (p1, e1) = die p e
         in ((True, p1, att1), e1)))"


section \<open>Food and GameRoom\<close>

record Food =
  food_id :: int
  food_x :: real
  food_y :: real
  food_value :: int
  food_size :: int
  food_color :: int

definition Food_new :: "real \<Rightarrow> real \<Rightarrow> int \<Rightarrow> env \<Rightarrow> Food \<times> env" where
  "Food_new fx fy v e =
     (let (now, e1) = Date_now e;
          (r, e2) = Math_random e1
      in (\<lparr>food_id = now + \<lfloor>r * 1000\<rfloor>, food_x = fx, food_y = fy, food_value = v,
           food_size = (if v > 1 then 8 else 4),
           food_color = (if v > 1 then 0xff6b6b else 0x4ecdc4)\<rparr>, e2))"

text \<open>
  \<^verbatim>\<open>players\<close> is a JavaScript \<^verbatim>\<open>Map\<close> from ids to player objects; it iterates in
  insertion order, so it is a list of pairs with distinct keys. The player objects are
  referred to by their position in this list where the source holds references to them.
\<close>

record GameRoom =
  room_id :: int
  room_name :: string
  options :: room_options
  playerCount :: nat
  players :: "(int \<times> Player) list"
  foods :: "Food list"

definition Map_set :: "int \<Rightarrow> 'v \<Rightarrow> (int \<times> 'v) list \<Rightarrow> (int \<times> 'v) list" where
  "Map_set k v kvs =
     (if k \<in> fst ` set kvs then map (\<lambda>(k', v'). if k' = k then (k', v) else (k', v')) kvs
      else kvs @ [(k, v)])"

definition Map_delete :: "int \<Rightarrow> (int \<times> 'v) list \<Rightarrow> (int \<times> 'v) list" where
  "Map_delete k kvs = filter (\<lambda>(k', v'). k' \<noteq> k) kvs"

text \<open>One round of the loop of \<^verbatim>\<open>generateFood\<close>, and of the respawn after a meal.\<close>

definition randomFood :: "room_options \<Rightarrow> env \<Rightarrow> Food \<times> env" where
  "randomFood opts e =
     (let (r1, e1) = Math_random e;
          (r2, e2) = Math_random e1;
          (r3, e3) = Math_random e2
      in Food_new (r1 * (width opts - 200) + 100) (r2 * (height opts - 200) + 100)
           (if r3 < 0.1 then 3 else 1) e3)"

fun generateFood :: "nat \<Rightarrow> room_options \<Rightarrow> Food list \<Rightarrow> env \<Rightarrow> Food list \<times> env" where
  "generateFood 0 opts fs e = (fs, e)"
| "generateFood (Suc n) opts fs e =
     (let (f, e1) = randomFood opts e in generateFood n opts (fs @ [f]) e1)"

definition addPlayer :: "Player \<Rightarrow> GameRoom \<Rightarrow> env \<Rightarrow> GameRoom \<times> env" where
  "addPlayer p room e =
     (let (p1, e1) = spawn (options room) (p\<lparr>currentRoom := Some (room_id room)\<rparr>) e;
          ps = Map_set (player_id p) p1 (players room)
      in (room\<lparr>players := ps, playerCount := length ps\<rparr>, e1))"

definition removePlayer :: "int \<Rightarrow> GameRoom \<Rightarrow> GameRoom" where
  "removePlayer k room =
     (if k \<in> fst ` set (players room)
      then (let ps = Map_delete k (players room) in room\<lparr>players := ps, playerCount := length ps\<rparr>)
      else room)"

subsection \<open>Collisions between players\<close>

text \<open>\<^verbatim>\<open>victim.takeDamage(CONFIG.collisionDamage, attacker)\<close> on the objects at positions
  \<open>v\<close> and \<open>a\<close>, two different objects.\<close>

definition damageAt :: "nat \<Rightarrow> nat \<Rightarrow> Player list \<Rightarrow> env \<Rightarrow> Player list \<times> env" where
  "damageAt v a ps e =
     (let ((r, v1, att1), e1) = takeDamage (ps ! v) collisionDamage (Other (ps ! a)) e
      in (case att1 of Other a1 \<Rightarrow> (ps[a := a1, v := v1], e1) | _ \<Rightarrow> (ps[v := v1], e1)))"

text \<open>The body of the inner loop, for \<open>p1\<close> at position \<open>a\<close> and \<open>p2\<close> at position \<open>b\<close>.\<close>

definition collidePair :: "nat \<Rightarrow> nat \<Rightarrow> Player list \<Rightarrow> env \<Rightarrow> Player list \<times> env" where
  "collidePair a b ps e =
     (let p1 = ps ! a; p2 = ps ! b;
          d = Vec2_distance (pos p1) (pos p2);
          colD = real_of_int (player_size p1 + player_size p2) * 0.6
      in if d < colD then
           (let diff = player_size p1 - player_size p2; threshold = 10
            in if diff > threshold then damageAt b a ps e
               else if diff < - threshold then damageAt a b ps e
               else (ps, e))
         else (ps, e))"

fun pvpInner :: "nat \<Rightarrow> nat list \<Rightarrow> Player list \<Rightarrow> env \<Rightarrow> Player list \<times> env" where
  "pvpInner a [] ps e = (ps, e)"
| "pvpInner a (b # bs) ps e = (let (ps1, e1) = collidePair a b ps e in pvpInner a bs ps1 e1)"

fun pvpOuter :: "nat list \<Rightarrow> Player list \<Rightarrow> env \<Rightarrow> Player list \<times> env" where
  "pvpOuter [] ps e = (ps, e)"
| "pvpOuter (a # as) ps e = (let (ps1, e1) = pvpInner a as ps e in pvpOuter as ps1 e1)"

text \<open>\<^verbatim>\<open>alive\<close>: the positions of the players that are alive when the sweep starts.\<close>

definition aliveIndices :: "Player list \<Rightarrow> nat list" where
  "aliveIndices ps = filter (\<lambda>i. isAlive (ps ! i)) [0..<length ps]"

subsection \<open>Collisions with food\<close>

text \<open>The loop \<^verbatim>\<open>for (let i=this.foods.length-1; i>=0; i--)\<close> for the player at position
  \<open>a\<close>, with \<open>n\<close> indices still to visit (the next one is \<open>n - 1\<close>).\<close>

fun eatFoods :: "nat \<Rightarrow> nat \<Rightarrow> room_options \<Rightarrow> Player list \<Rightarrow> Food list \<Rightarrow> env \<Rightarrow> (Player list \<times> Food list) \<times> env" where
  "eatFoods a 0 opts ps fs e = ((ps, fs), e)"
| "eatFoods a (Suc i) opts ps fs e =
     (let food = fs ! i; player = ps ! a;
          dx = vec_x (pos player) - food_x food; dy = vec_y (pos player) - food_y food;
          dist = sqrt (dx * dx + dy * dy)
      in if dist < real_of_int (player_size player) / 2 + real_of_int (food_size food) then
           (let ps1 = ps[a := player\<lparr>score := score player + food_value food * 10\<rparr>];
                fs1 = take i fs @ drop (Suc i) fs;
                (r, e1) = Math_random e
            in if r < 0.7 then
                 (let (f, e2) = randomFood opts e1 in eatFoods a i opts ps1 (fs1 @ [f]) e2)
               else eatFoods a i opts ps1 fs1 e1)
         else eatFoods a i opts ps fs e)"

fun foodSweep :: "nat list \<Rightarrow> room_options \<Rightarrow> Player list \<Rightarrow> Food list \<Rightarrow> env \<Rightarrow> (Player list \<times> Food list) \<times> env" where
  "foodSweep [] opts ps fs e = ((ps, fs), e)"
| "foodSweep (a # as) opts ps fs e =
     (let ((ps1, fs1), e1) = eatFoods a (length fs) opts ps fs e in foodSweep as opts ps1 fs1 e1)"

definition checkCollisions :: "GameRoom \<Rightarrow> env \<Rightarrow> GameRoom \<times> env" where
  "checkCollisions room e =
     (let ps = map snd (players room);
          alive = aliveIndices ps;
          (ps1, e1) = pvpOuter alive ps e;
          ((ps2, fs2), e2) = foodSweep alive (options room) ps1 (foods room) e1
      in (room\<lparr>players := zip (map fst (players room)) ps2, foods := fs2\<rparr>, e2))"

subsection \<open>The room's tick\<close>

fun updatePlayers :: "real \<Rightarrow> rooms \<Rightarrow> (int \<times> Player) list \<Rightarrow> env \<Rightarrow> (error + (int \<times> Player) list) \<times> env" where
  "updatePlayers dt rs [] e = (Inr [], e)"
| "updatePlayers dt rs ((k, p) # kps) e =
     (case update dt rs p e of
        (Inl err, e1) \<Rightarrow> (Inl err, e1)
      | (Inr p1, e1) \<Rightarrow>
          (case updatePlayers dt rs kps e1 of
             (Inl err, e2) \<Rightarrow> (Inl err, e2)
           | (Inr kps1, e2) \<Rightarrow> (Inr ((k, p1) # kps1), e2)))"

definition GameRoom_update :: "real \<Rightarrow> rooms \<Rightarrow> GameRoom \<Rightarrow> env \<Rightarrow> (error + GameRoom) \<times> env" where
  "GameRoom_update dt rs room e =
     (case updatePlayers dt rs (players room) e of
        (Inl err, e1) \<Rightarrow> (Inl err, e1)
      | (Inr kps, e1) \<Rightarrow>
          (let (room1, e2) = checkCollisions (room\<lparr>players := kps\<rparr>) e1
           in if length (foods room1) < 250 then
                (let (fs, e3) = generateFood 10 (options room1) (foods room1) e2
                 in (Inr (room1\<lparr>foods := fs\<rparr>), e3))
              else (Inr room1, e2)))"


section \<open>PacketEncoder\<close>

text \<open>
  The output buffer is a sequence of items: a byte, or the four bytes that
  \<^verbatim>\<open>writeFloatLE\<close> produces for a number (its IEEE single-precision image, which is
  kept symbolic). The integer writes of Node's \<^verbatim>\<open>Buffer\<close> raise a RangeError when the
  value is outside the range of the field.
\<close>

datatype wire = U8 "8 word" | F32 real

fun wire_size :: "wire \<Rightarrow> nat" where
  "wire_size (U8 b) = 1"
| "wire_size (F32 r) = 4"

definition writeUInt8 :: "int \<Rightarrow> error + wire list" where
  "writeUInt8 v = (if 0 \<le> v \<and> v \<le> 255 then Inr [U8 (word_of_int v)] else Inl RangeError)"

definition writeUInt16LE :: "int \<Rightarrow> error + wire list" where
  "writeUInt16LE v =
     (if 0 \<le> v \<and> v \<le> 65535 then Inr [U8 (word_of_int v), U8 (word_of_int (v div 256))]
      else Inl RangeError)"

definition writeUInt32LE :: "int \<Rightarrow> error + wire list" where
  "writeUInt32LE v =
     (if 0 \<le> v \<and> v \<le> 4294967295
      then Inr [U8 (word_of_int v), U8 (word_of_int (v div 256)),
                U8 (word_of_int (v div 65536)), U8 (word_of_int (v div 16777216))]
      else Inl RangeError)"

definition writeFloatLE :: "real \<Rightarrow> error + wire list" where
  "writeFloatLE r = Inr [F32 r]"

text \<open>A sequence of writes: the first error ends it, otherwise the outputs follow each other.\<close>

fun writes :: "(error + wire list) list \<Rightarrow> error + wire list" where
  "writes [] = Inr []"
| "writes (w # ws) =
     (case w of
        Inl err \<Rightarrow> Inl err
      | Inr bs \<Rightarrow> (case writes ws of Inl err \<Rightarrow> Inl err | Inr cs \<Rightarrow> Inr (bs @ cs)))"

definition encodeUintAngle :: "real \<Rightarrow> int" where
  "encodeUintAngle ang = js_and \<lfloor>((ang / pi + 1) / 2) * 255\<rfloor> 0xFF"

text \<open>The packed byte \<^verbatim>\<open>(player.team & 0xFF) | ((player.level & 0x1F) << 3)\<close>.\<close>

definition teamLevelByte :: "Player \<Rightarrow> int" where
  "teamLevelByte p = js_or (js_and (team p) 0xFF) (js_shl (js_and (level p) 0x1F) 3)"

definition dashByte :: "Player \<Rightarrow> int" where
  "dashByte p = js_or (js_and (maxDash p) 0xF) (js_shl (js_and (curDash p) 0xF) 4)"

text \<open>The loop over the parts after the head, from index \<open>i\<close> on.\<close>

fun encodeParts :: "nat \<Rightarrow> nat \<Rightarrow> NarwhalePart list \<Rightarrow> (error + wire list) list" where
  "encodeParts i bp [] = []"
| "encodeParts i bp (q # qs) =
     (if i \<noteq> bp then [writeUInt8 (encodeUintAngle (part_rot q))]
      else [writeFloatLE (part_x q), writeFloatLE (part_y q),
            writeFloatLE (part_vx q), writeFloatLE (part_vy q)])
     @ encodeParts (Suc i) bp qs"

text \<open>
  \<^verbatim>\<open>_encodeFishElement\<close>. Player ids are numbers in this server (the branch for string
  ids is not taken). The name is a string of one-byte characters.
\<close>

definition fishHeader :: "Player \<Rightarrow> (error + wire list) list" where
  "fishHeader p =
     [writeUInt8 0,
      writeUInt32LE (js_ushr (player_id p) 0),
      writeUInt8 (js_and (js_sar (color p) 16) 0xFF),
      writeUInt8 (js_and (js_sar (color p) 8) 0xFF),
      writeUInt8 (js_and (color p) 0xFF),
      Inr (map (\<lambda>c. U8 (of_char c)) (take 20 (name p))),
      writeUInt8 0]"

definition encodeFishElement :: "Player \<Rightarrow> error + wire list" where
  "encodeFishElement p =
     (case parts p of
        [] \<Rightarrow> Inl TypeError
      | q0 # qs \<Rightarrow>
          (let sp = sqrt (part_vx q0 * part_vx q0 + part_vy q0 * part_vy q0);
               ang = atan2 (part_vy q0) (part_vx q0)
           in writes
                (fishHeader p @
                 [writeUInt8 (teamLevelByte p),
                  writeUInt8 (js_and \<lfloor>alpha p * 255\<rfloor> 0xFF),
                  writeUInt8 (dashByte p),
                  writeUInt8 (js_and \<lfloor>overDash p * 255\<rfloor> 0xFF),
                  writeUInt8 (js_and \<lfloor>tuskRatio p * 127\<rfloor> 0xFF),
                  writeUInt8 (js_and (decoration p) 0xFF),
                  writeFloatLE (part_x q0),
                  writeFloatLE (part_y q0),
                  writeUInt16LE (min \<lfloor>sp\<rfloor> 65535),
                  writeUInt8 (encodeUintAngle ang),
                  writeUInt8 (encodeUintAngle (part_rot q0)),
                  writeUInt8 (js_and (skincode p) 0xFF),
                  writeUInt8 (js_and \<lfloor>invincibleDur p * 255\<rfloor> 0xFF),
                  writeUInt8 (max 0 (min 255 (int (length (parts p)) - 1)))] @
                 encodeParts 1 (breakPoint p) qs)))"

definition encodeFoodElement :: "Food \<Rightarrow> error + wire list" where
  "encodeFoodElement f =
     writes
       [writeUInt8 6,
        writeUInt32LE (js_and (food_id f) 0xFFFFFFFF),
        writeFloatLE (food_x f),
        writeFloatLE (food_y f),
        writeUInt8 (js_and (food_value f) 0xFF),
        writeUInt8 (js_and (food_size f) 0xFF),
        writeUInt8 (js_and (js_sar (food_color f) 16) 0xFF),
        writeUInt8 (js_and (js_sar (food_color f) 8) 0xFF),
        writeUInt8 (js_and (food_color f) 0xFF)]"

text \<open>
  \<^verbatim>\<open>encodeSetElements\<close>. The buffer is allocated with \<open>bufferSize\<close> bytes; a write
  past its end raises a RangeError, which happens exactly when the items written need
  more than \<open>bufferSize\<close> bytes.
\<close>

definition setElementsBody :: "GameRoom \<Rightarrow> (error + wire list) list" where
  "setElementsBody room =
     (let ps = filter (\<lambda>p. isAlive p \<and> isSpawned p) (map snd (players room));
          fs = take 100 (foods room)
      in map encodeFishElement ps @ map encodeFoodElement fs)"

definition bufferSize :: "GameRoom \<Rightarrow> nat" where
  "bufferSize room =
     (let ps = filter (\<lambda>p. isAlive p \<and> isSpawned p) (map snd (players room));
          fs = take 100 (foods room)
      in 64 + sum_list (map (\<lambda>p. 64 + length (name p) + length (parts p) * 5) ps) + length fs * 20)"

definition encodeSetElements :: "GameRoom \<Rightarrow> env \<Rightarrow> (error + wire list) \<times> env" where
  "encodeSetElements room e =
     (let (now, e1) = Date_now e
      in (case writes ([writeUInt8 48, writeUInt16LE (js_and now 0xFFFF), writeUInt8 0]
                       @ setElementsBody room) of
            Inl err \<Rightarrow> Inl err
          | Inr out \<Rightarrow>
              if sum_list (map wire_size out) > bufferSize room then Inl RangeError else Inr out,
          e1))"


section \<open>Sequences of calls on a room\<close>

text \<open>
  The calls that reach a room and its players between and during ticks: the tick itself
  (\<^verbatim>\<open>GameRoom.update\<close>), the creation of a player and its entry into the room, and the
  methods \<^verbatim>\<open>setTarget\<close>, \<^verbatim>\<open>useDash\<close>, \<^verbatim>\<open>takeDamage\<close> and \<^verbatim>\<open>spawn\<close> of a
  player of the room, who is named by its key in \<^verbatim>\<open>players\<close>. The attacker of
  \<^verbatim>\<open>takeDamage\<close> is null or a player of the room.
\<close>

datatype command =
    Tick real
  | AddPlayer int bool string
  | SetTarget int real real
  | UseDash int
  | TakeDamage int int "int option"
  | Spawn int

definition replaceAt :: "int \<Rightarrow> Player \<Rightarrow> (int \<times> Player) list \<Rightarrow> (int \<times> Player) list" where
  "replaceAt k p kps = map (\<lambda>(k', p'). if k' = k then (k', p) else (k', p')) kps"

definition step :: "rooms \<Rightarrow> command \<Rightarrow> GameRoom \<Rightarrow> env \<Rightarrow> (error + GameRoom) \<times> env" where
  "step rs c room e =
     (case c of
        Tick dt \<Rightarrow> GameRoom_update dt rs room e
      | AddPlayer ident sock nm \<Rightarrow>
          (let (p, e1) = Player_new ident sock nm e;
               (room1, e2) = addPlayer p room e1
           in (Inr room1, e2))
      | SetTarget k tx ty \<Rightarrow>
          (case map_of (players room) k of
             None \<Rightarrow> (Inr room, e)
           | Some p \<Rightarrow> (Inr (room\<lparr>players := replaceAt k (setTarget tx ty rs p) (players room)\<rparr>), e))
      | UseDash k \<Rightarrow>
          (case map_of (players room) k of
             None \<Rightarrow> (Inr room, e)
           | Some p \<Rightarrow>
               (let ((ok, p1), e1) = useDash p e
                in (Inr (room\<lparr>players := replaceAt k p1 (players room)\<rparr>), e1)))
      | TakeDamage k amount a \<Rightarrow>
          (case map_of (players room) k of
             None \<Rightarrow> (Inr room, e)
           | Some p \<Rightarrow>
               (let att = (case a of
                             None \<Rightarrow> Null
                           | Some ka \<Rightarrow>
                               if ka = k then This
                               else (case map_of (players room) ka of
                                       None \<Rightarrow> Null
                                     | Some pa \<Rightarrow> Other pa));
                    ((r, p1, att1), e1) = takeDamage p amount att e;
                    kps1 = replaceAt k p1 (players room);
                    kps2 = (case (a, att1) of (Some ka, Other pa1) \<Rightarrow> replaceAt ka pa1 kps1 | _ \<Rightarrow> kps1)
                in (Inr (room\<lparr>players := kps2\<rparr>), e1)))
      | Spawn k \<Rightarrow>
          (case map_of (players room) k of
             None \<Rightarrow> (Inr room, e)
           | Some p \<Rightarrow>
               (let (p1, e1) = spawn (options room) p e
                in (Inr (room\<lparr>players := replaceAt k p1 (players room)\<rparr>), e1))))"

fun run :: "rooms \<Rightarrow> command list \<Rightarrow> GameRoom \<Rightarrow> env \<Rightarrow> (error + GameRoom) \<times> env" where
  "run rs [] room e = (Inr room, e)"
| "run rs (c # cs) room e =
     (case step rs c room e of
        (Inl err, e1) \<Rightarrow> (Inl err, e1)
      | (Inr room1, e1) \<Rightarrow> run rs cs room1 e1)"

text \<open>The two properties of a player that the calls are to keep.\<close>

definition chainAndDashOk :: "Player \<Rightarrow> bool" where
  "chainAndDashOk p \<longleftrightarrow> length (parts p) = 11 \<and> 0 \<le> curDash p \<and> curDash p \<le> maxDash p"

definition allPlayersOk :: "GameRoom \<Rightarrow> bool" where
  "allPlayersOk room \<longleftrightarrow> (\<forall>p\<in>set (map snd (players room)). chainAndDashOk p)"

text \<open>A chain whose break point lies beyond its last part, as the constructor makes it.\<close>

definition unbrokenChain :: "Player \<Rightarrow> bool" where
  "unbrokenChain p \<longleftrightarrow> breakPoint p = 11 \<and> length (parts p) = 11"

definition allPlayersUnbroken :: "GameRoom \<Rightarrow> bool" where
  "allPlayersUnbroken room \<longleftrightarrow> (\<forall>p\<in>set (map snd (players room)). unbrokenChain p)"


section \<open>The conditions of the collision sweep\<close>

text \<open>
  The two tests of the inner loop of \<^verbatim>\<open>checkCollisions\<close>, read for an ordered pair:
  \<open>u\<close> beats \<open>v\<close> when the two are closer than \<open>(size1 + size2) * 0.6\<close> and \<open>u\<close> is larger
  than \<open>v\<close> by more than the threshold 10; \<open>u\<close> damages \<open>v\<close> when moreover \<open>v\<close> is not
  invincible, so that \<open>takeDamage\<close> goes through. Neither test reads a field that the
  sweep changes; \<open>sameBodies\<close> says that two player arrays agree on the fields read.
\<close>

definition beats :: "Player \<Rightarrow> Player \<Rightarrow> bool" where
  "beats u v \<longleftrightarrow>
     Vec2_distance (pos u) (pos v) < real_of_int (player_size u + player_size v) * 0.6 \<and>
     player_size u - player_size v > 10"

definition damages :: "Player \<Rightarrow> Player \<Rightarrow> bool" where
  "damages u v \<longleftrightarrow> beats u v \<and> \<not> invincibleDur v > 0"

definition sameBodies :: "Player list \<Rightarrow> Player list \<Rightarrow> bool" where
  "sameBodies ps qs \<longleftrightarrow>
     length qs = length ps \<and>
     (\<forall>x<length ps. pos (qs ! x) = pos (ps ! x) \<and> player_size (qs ! x) = player_size (ps ! x) \<and>
                     invincibleDur (qs ! x) = invincibleDur (ps ! x))"


section \<open>Terms for the environment and the food ids\<close>

text \<open>The two sources of an environment, without the counters of the readings made.\<close>

definition srcs :: "env \<Rightarrow> (nat \<Rightarrow> int) \<times> (nat \<Rightarrow> real)" where
  "srcs e = (clock e, random e)"

text \<open>
  An environment whose clock stays below \<open>2^31 - 1000\<close> and whose random numbers lie in
  \<open>[0, 1)\<close>, as those of \<^verbatim>\<open>Math.random()\<close> do: the ids \<^verbatim>\<open>Date.now() + Math.floor(Math.random() * 1000)\<close>
  that it gives to food are then below \<open>2^31\<close>, so that \<^verbatim>\<open>food.id & 0xFFFFFFFF\<close> is
  not negative and \<^verbatim>\<open>writeUInt32LE\<close> accepts it.
\<close>

definition earlyEnv :: "env \<Rightarrow> bool" where
  "earlyEnv e \<longleftrightarrow> (\<forall>k. 0 \<le> clock e k \<and> clock e k < 2147482648) \<and>
                (\<forall>k. 0 \<le> random e k \<and> random e k < 1)"

definition smallIds :: "Food list \<Rightarrow> bool" where
  "smallIds fs \<longleftrightarrow> (\<forall>f\<in>set fs. 0 \<le> food_id f \<and> food_id f < 2147483648)"

text \<open>
  Two environments that deliver the same readings from now on: the next reading of the
  clock is the same in both, and the one after it, and so on, and likewise for the random
  numbers. How many readings were made before, and what they were, may differ.
\<close>

definition sameReadings :: "env \<Rightarrow> env \<Rightarrow> bool" where
  "sameReadings e e' \<longleftrightarrow>
     (\<forall>k. clock e (clockReads e + k) = clock e' (clockReads e' + k)) \<and>
     (\<forall>k. random e (randomDraws e + k) = random e' (randomDraws e' + k))"


text \<open>An environment for the concrete examples: the clock stays within one second for
  its first 125 readings and then jumps ahead by about ten seconds.\<close>

definition env0 :: env where
  "env0 = \<lparr>clock = (\<lambda>k. if k < 125 then 50000 + int k else 60000), clockReads = 0,
           random = (\<lambda>k. 1/2), randomDraws = 0\<rparr>"

text \<open>A player as the constructor makes it under \<open>env0\<close>: every random draw is
  \<open>1/2\<close>, so its team is \<open>-1\<close> and its angle is \<open>pi\<close>.\<close>

definition player0 :: Player where
  "player0 = fst (Player_new 1001 True ''A'' env0)"

definition room0 :: room_options where
  "room0 = \<lparr>width = 6400, height = 6400\<rparr>"

definition emptyRoom :: GameRoom where
  "emptyRoom = \<lparr>room_id = 0, room_name = ''Large 1'', options = room0, playerCount = 0,
                 players = [], foods = []\<rparr>"

definition rooms0 :: rooms where
  "rooms0 = [0 \<mapsto> room0]"


text \<open>Players of a chosen size, all at the place where the constructor puts them, and a
  room that holds given players.\<close>

definition sized :: "int \<Rightarrow> int \<Rightarrow> Player" where
  "sized k sz = player0\<lparr>player_id := k, player_size := sz\<rparr>"

definition roomOf :: "Player list \<Rightarrow> GameRoom" where
  "roomOf ps = emptyRoom\<lparr>players := map (\<lambda>p. (player_id p, p)) ps, playerCount := length ps\<rparr>"

text \<open>An environment whose clock reads \<open>c\<close> at every reading, and a room that holds one
  player, spawned and alive, and no food.\<close>

definition envAt :: "int \<Rightarrow> env" where
  "envAt c = \<lparr>clock = (\<lambda>k. c), clockReads = 0, random = (\<lambda>k. 1/2), randomDraws = 0\<rparr>"

definition startRoom :: GameRoom where
  "startRoom = fst (addPlayer player0 emptyRoom env0)"


section \<open>Facts about the JavaScript integer operators\<close>

lemma sint_word_of_int_small:
  assumes "0 \<le> k" and "k < 2147483648"
  shows "sint (word_of_int k :: 32 word) = k"
proof -
  have "- (2 ^ 31) \<le> k" "k < 2 ^ 31" using assms by simp_all
  then show ?thesis by (simp add: sint_sbintrunc' signed_take_bit_int_eq_self)
qed

lemma js_and_mask:
  assumes "n < 31"
  shows "js_and v (2 ^ n - 1) = v mod 2 ^ n"
proof -
  have "(word_of_int (2 ^ n - 1) :: 32 word) = mask n"
    by (simp add: mask_eq_exp_minus_1)
  then have "(word_of_int v :: 32 word) AND word_of_int (2 ^ n - 1) = word_of_int (take_bit n v)"
    by (simp add: and_mask_wi)
  moreover have "take_bit n v < 2147483648"
  proof -
    have "take_bit n v < 2 ^ n" by (rule take_bit_int_less_exp)
    also have "(2::int) ^ n \<le> 2 ^ 31" using assms by (intro power_increasing) simp_all
    finally show ?thesis by simp
  qed
  ultimately show ?thesis
    by (simp add: js_and_def sint_word_of_int_small take_bit_eq_mod)
qed

lemma js_and_255: "js_and v 0xFF = v mod 256"
  using js_and_mask [of 8 v] by simp

lemma js_and_31: "js_and v 0x1F = v mod 32"
  using js_and_mask [of 5 v] by simp


lemma js_or_255_shl: "js_or 255 (js_shl (js_and l 0x1F) 3) = 255"
proof -
  have m8: "(255 :: 32 word) = mask 8" by (simp add: mask_eq_exp_minus_1)
  have "(word_of_int (l mod 32) :: 32 word) = word_of_int l AND mask 5"
    by (simp add: and_mask_wi take_bit_eq_mod)
  moreover have "(255 :: 32 word) OR push_bit 3 (w AND mask 5) = 255" for w :: "32 word"
    unfolding m8 by (rule bit_word_eqI) (auto simp add: bit_simps)
  ultimately show ?thesis
    by (simp add: js_or_def js_shl_def js_and_31)
qed

lemma js_or_1_shl: "js_or 1 (js_shl (js_and l 0x1F) 3) = 1 + 8 * (l mod 32)"
proof -
  have "(1 :: 32 word) OR push_bit 3 x = 1 + push_bit 3 x" for x :: "32 word"
    by (rule disjunctive_add [symmetric]) (auto simp add: bit_simps)
  then have w: "(1 :: 32 word) OR push_bit 3 (word_of_int (l mod 32)) = word_of_int (1 + 8 * (l mod 32))"
    by (simp add: push_bit_eq_mult)
  have "0 \<le> l mod 32" "l mod 32 < 32" by simp_all
  then have "0 \<le> 1 + 8 * (l mod 32)" "1 + 8 * (l mod 32) < 2147483648" by linarith+
  then have s: "sint (word_of_int (1 + 8 * (l mod 32)) :: 32 word) = 1 + 8 * (l mod 32)"
    by (rule sint_word_of_int_small)
  have "js_or 1 (js_shl (l mod 32) 3) = sint ((1 :: 32 word) OR push_bit 3 (word_of_int (l mod 32)))"
    by (simp add: js_or_def js_shl_def)
  then show ?thesis
    by (simp only: js_and_31 w s)
qed


section \<open>The example player\<close>

lemma player0_team: "team player0 = - 1"
  by (simp add: player0_def Player_new_def randomColor_def Math_random_def Date_now_def env0_def Let_def)

lemma player0_parts: "length (parts player0) = 11"
  by (simp add: player0_def Player_new_def randomColor_def Math_random_def Date_now_def env0_def initializeParts_def Let_def)


section \<open>The rate limiter\<close>

lemma validateInputRate_in_window:
  assumes "m pid = Some d" and "clock e (clockReads e) - lastReset d \<le> 1000"
  shows "validateInputRate m pid e =
           ((count d + 1 \<le> 120, m(pid \<mapsto> d\<lparr>count := count d + 1\<rparr>)), e\<lparr>clockReads := Suc (clockReads e)\<rparr>)"
  using assms by (simp add: validateInputRate_def Date_now_def maxInputRate_def)

lemma validateInputRate_restart:
  assumes "m pid = None \<or> (\<exists>d. m pid = Some d \<and> clock e (clockReads e) - lastReset d > 1000)"
  shows "validateInputRate m pid e =
           ((True, m(pid \<mapsto> \<lparr>count = 1, lastReset = clock e (clockReads e)\<rparr>)), e\<lparr>clockReads := Suc (clockReads e)\<rparr>)"
proof (cases "m pid")
  case None
  then show ?thesis by (simp add: validateInputRate_def Date_now_def maxInputRate_def)
next
  case (Some d)
  with assms have "clock e (clockReads e) - lastReset d > 1000" by simp
  with Some show ?thesis
    by (cases d) (simp add: validateInputRate_def Date_now_def maxInputRate_def)
qed

lemma inputRateCalls_in_window:
  assumes "m pid = Some d"
    and "\<forall>k<n. clock e (clockReads e + k) - lastReset d \<le> 1000"
  shows "inputRateCalls n m pid e =
           ((map (\<lambda>k. count d + 1 + int k \<le> 120) [0..<n], m(pid \<mapsto> d\<lparr>count := count d + int n\<rparr>)),
            e\<lparr>clockReads := clockReads e + n\<rparr>)"
  using assms
proof (induction n arbitrary: m d e)
  case 0
  then show ?case by (simp add: fun_upd_idem)
next
  case (Suc n)
  have w0: "clock e (clockReads e) - lastReset d \<le> 1000"
    using Suc.prems(2) by (metis add.right_neutral zero_less_Suc)
  let ?d1 = "d\<lparr>count := count d + 1\<rparr>"
  let ?m1 = "m(pid \<mapsto> ?d1)"
  let ?e1 = "e\<lparr>clockReads := Suc (clockReads e)\<rparr>"
  have step: "validateInputRate m pid e = ((count d + 1 \<le> 120, ?m1), ?e1)"
    using Suc.prems(1) w0 by (rule validateInputRate_in_window [of m pid d e])
  have "\<forall>k<n. clock ?e1 (clockReads ?e1 + k) - lastReset ?d1 \<le> 1000"
    using Suc.prems(2) by (auto dest: spec [where x = "Suc k" for k])
  then have win1: "\<forall>k<n. clock ?e1 (clockReads ?e1 + k) - lastReset ?d1 \<le> 1000" .
  have p1: "?m1 pid = Some ?d1" by simp
  have ih: "inputRateCalls n ?m1 pid ?e1 =
     ((map (\<lambda>k. count ?d1 + 1 + int k \<le> 120) [0..<n], ?m1(pid \<mapsto> ?d1\<lparr>count := count ?d1 + int n\<rparr>)),
            ?e1\<lparr>clockReads := clockReads ?e1 + n\<rparr>)"
    using p1 win1 by (rule Suc.IH)
  have l: "map (\<lambda>k. count d + 1 + int k \<le> 120) [0..<Suc n]
         = (count d + 1 \<le> 120) # map (\<lambda>k. count ?d1 + 1 + int k \<le> 120) [0..<n]"
    by (simp add: upt_conv_Cons map_Suc_upt [symmetric] del: upt_Suc) 
  show ?case
    by (simp only: inputRateCalls.simps step ih Let_def prod.case l) (auto simp add: fun_upd_def add.commute add.left_commute)
qed


lemma inputRateCalls_add:
  "inputRateCalls (n + k) m pid e =
     (let ((rs, m1), e1) = inputRateCalls n m pid e;
          ((rs2, m2), e2) = inputRateCalls k m1 pid e1
      in ((rs @ rs2, m2), e2))"
  by (induction n arbitrary: m e) (simp_all add: Let_def split_def)

text \<open>
  Claim C4. Take a connection whose window starts at the first of \<open>n + 1\<close> consecutive
  calls of \<open>validateInputRate\<close> (no entry yet, or the previous window is more than
  1000 ms old). If the first \<open>n\<close> calls fall within 1000 ms of the first one and the last
  call comes more than 1000 ms after it, then among the first \<open>n\<close> calls exactly the first
  120 are accepted, every later one is rejected, and the last call is accepted again with
  the counter restarted (it stands at 1, the call itself) and the window restarted at
  that call.
\<close>

theorem validateInputRate_window_120:
  assumes start: "m pid = None \<or> (\<exists>d. m pid = Some d \<and> clock e (clockReads e) - lastReset d > 1000)"
    and win: "\<forall>k<n. clock e (clockReads e + k) - clock e (clockReads e) \<le> 1000"
    and roll: "clock e (clockReads e + n) - clock e (clockReads e) > 1000"
  shows "fst (fst (inputRateCalls (Suc n) m pid e)) = map (\<lambda>k. k < 120) [0..<n] @ [True] \<and>
         snd (fst (inputRateCalls (Suc n) m pid e)) pid
           = Some \<lparr>count = 1, lastReset = clock e (clockReads e + n)\<rparr>"
proof -
  from roll obtain j where n: "n = Suc j" by (cases n) auto
  let ?t0 = "clock e (clockReads e)"
  let ?d0 = "\<lparr>count = 1, lastReset = ?t0\<rparr>"
  let ?m0 = "m(pid \<mapsto> ?d0)"
  let ?e0 = "e\<lparr>clockReads := Suc (clockReads e)\<rparr>"
  have first: "validateInputRate m pid e = ((True, ?m0), ?e0)"
    using start by (rule validateInputRate_restart)
  have m0: "?m0 pid = Some ?d0" by simp
  have "\<forall>k<j. clock ?e0 (clockReads ?e0 + k) - lastReset ?d0 \<le> 1000"
    using win n by (auto dest: spec [where x = "Suc k" for k])
  with m0 have mid: "inputRateCalls j ?m0 pid ?e0 =
      ((map (\<lambda>k. count ?d0 + 1 + int k \<le> 120) [0..<j], ?m0(pid \<mapsto> ?d0\<lparr>count := count ?d0 + int j\<rparr>)),
       ?e0\<lparr>clockReads := clockReads ?e0 + j\<rparr>)"
    by (rule inputRateCalls_in_window)
  let ?m1 = "?m0(pid \<mapsto> ?d0\<lparr>count := count ?d0 + int j\<rparr>)"
  let ?e1 = "?e0\<lparr>clockReads := clockReads ?e0 + j\<rparr>"
  have "\<exists>d. ?m1 pid = Some d \<and> clock ?e1 (clockReads ?e1) - lastReset d > 1000"
    using roll n by simp
  then have last: "validateInputRate ?m1 pid ?e1 =
      ((True, ?m1(pid \<mapsto> \<lparr>count = 1, lastReset = clock ?e1 (clockReads ?e1)\<rparr>)),
       ?e1\<lparr>clockReads := Suc (clockReads ?e1)\<rparr>)"
    by (intro validateInputRate_restart disjI2)
  have pre: "inputRateCalls (Suc j) m pid e = ((True # map (\<lambda>k. count ?d0 + 1 + int k \<le> 120) [0..<j], ?m1), ?e1)"
    by (simp only: inputRateCalls.simps first mid Let_def prod.case)
  have one: "inputRateCalls (Suc 0) ?m1 pid ?e1 =
          (([True], ?m1(pid \<mapsto> \<lparr>count = 1, lastReset = clock ?e1 (clockReads ?e1)\<rparr>)),
           ?e1\<lparr>clockReads := Suc (clockReads ?e1)\<rparr>)"
    by (simp only: inputRateCalls.simps last Let_def prod.case)
  have "inputRateCalls (Suc j + Suc 0) m pid e =
          (((True # map (\<lambda>k. count ?d0 + 1 + int k \<le> 120) [0..<j]) @ [True],
            ?m1(pid \<mapsto> \<lparr>count = 1, lastReset = clock ?e1 (clockReads ?e1)\<rparr>)),
           ?e1\<lparr>clockReads := Suc (clockReads ?e1)\<rparr>)"
    by (simp only: inputRateCalls_add pre one Let_def prod.case)
  moreover have "Suc j + Suc 0 = Suc n" using n by simp
  ultimately have "inputRateCalls (Suc n) m pid e =
          (((True # map (\<lambda>k. count ?d0 + 1 + int k \<le> 120) [0..<j]) @ [True],
            ?m1(pid \<mapsto> \<lparr>count = 1, lastReset = clock ?e1 (clockReads ?e1)\<rparr>)),
           ?e1\<lparr>clockReads := Suc (clockReads ?e1)\<rparr>)"
    by (simp only:)
  moreover have "True # map (\<lambda>k. count ?d0 + 1 + int k \<le> 120) [0..<j] = map (\<lambda>k. k < 120) [0..<n]"
    unfolding n by (auto simp add: upt_conv_Cons map_Suc_upt [symmetric] simp del: upt_Suc)
  ultimately show ?thesis using n by simp
qed

theorem validateInputRate_window_120_witness:
  "fst (fst (inputRateCalls 126 Map.empty 7 env0)) = map (\<lambda>k. k < 120) [0..<125] @ [True] \<and>
   snd (fst (inputRateCalls 126 Map.empty 7 env0)) 7 = Some \<lparr>count = 1, lastReset = 60000\<rparr>"
  using validateInputRate_window_120 [of Map.empty 7 env0 125]
  by (simp add: env0_def)

section \<open>The encoder always produces a FISH record\<close>

lemma writes_append:
  "writes (xs @ ys) =
     (case writes xs of Inl err \<Rightarrow> Inl err
      | Inr a \<Rightarrow> (case writes ys of Inl err \<Rightarrow> Inl err | Inr b \<Rightarrow> Inr (a @ b)))"
  by (induction xs) (auto split: sum.splits)

lemma writeUInt8_masked: "writeUInt8 (js_and v 0xFF) = Inr [U8 (word_of_int v)]"
proof -
  have "v mod 256 < 256" by simp
  then have "0 \<le> v mod 256" "v mod 256 \<le> 255" by simp_all
  moreover have "(word_of_int (v mod 256) :: 8 word) = word_of_int v"
    by (rule word_uint_eqI) (simp add: uint_word_of_int)
  ultimately show ?thesis by (simp add: writeUInt8_def js_and_255)
qed

lemma writeUInt8_byte:
  assumes "0 \<le> v" and "v \<le> 255"
  shows "writeUInt8 v = Inr [U8 (word_of_int v)]"
  using assms by (simp add: writeUInt8_def)

lemma js_shl_small:
  assumes "0 \<le> k" and "k * 2 ^ n < 2147483648" and "n < 32"
  shows "js_shl k n = k * 2 ^ n"
proof -
  have w: "push_bit n (word_of_int k :: 32 word) = word_of_int (k * 2 ^ n)"
    by (simp add: push_bit_eq_mult)
  have "0 \<le> k * 2 ^ n" using assms(1) by simp
  then have "sint (word_of_int (k * 2 ^ n) :: 32 word) = k * 2 ^ n"
    using assms(2) by (rule sint_word_of_int_small)
  then show ?thesis using assms(3) by (simp only: js_shl_def mod_less w)
qed

lemma js_or_byte:
  assumes "0 \<le> a" "a < 256" "0 \<le> b" "b < 256"
  shows "0 \<le> js_or a b \<and> js_or a b \<le> 255"
proof -
  have w: "(word_of_int a :: 32 word) OR word_of_int b = word_of_int (a OR b)"
    by (rule bit_word_eqI) (auto simp add: bit_simps)
  have "a OR b < 2 ^ 8" using assms by (intro OR_upper) simp_all
  moreover have "0 \<le> a OR b" using assms by simp
  ultimately show ?thesis
    by (simp add: js_or_def w sint_word_of_int_small)
qed

lemma teamLevelByte_range: "0 \<le> teamLevelByte p \<and> teamLevelByte p \<le> 255"
proof -
  have "level p mod 32 < 32" "0 \<le> level p mod 32" by simp_all
  then have s: "js_shl (level p mod 32) 3 = (level p mod 32) * 2 ^ 3"
    by (intro js_shl_small) simp_all
  have "team p mod 256 < 256" "0 \<le> team p mod 256" by simp_all
  moreover have "0 \<le> (level p mod 32) * 2 ^ 3" "(level p mod 32) * 2 ^ 3 < 256"
    using \<open>level p mod 32 < 32\<close> \<open>0 \<le> level p mod 32\<close> by simp_all
  ultimately show ?thesis
    unfolding teamLevelByte_def js_and_255 js_and_31 s by (intro js_or_byte)
qed

lemma js_and_15: "js_and v 0xF = v mod 16"
  using js_and_mask [of 4 v] by simp

lemma dashByte_range: "0 \<le> dashByte p \<and> dashByte p \<le> 255"
proof -
  have "curDash p mod 16 < 16" "0 \<le> curDash p mod 16" by simp_all
  then have s: "js_shl (curDash p mod 16) 4 = (curDash p mod 16) * 2 ^ 4"
    by (intro js_shl_small) simp_all
  have "maxDash p mod 16 < 16" "0 \<le> maxDash p mod 16" by simp_all
  then have "maxDash p mod 16 < 256" "0 \<le> maxDash p mod 16" by simp_all
  moreover have "0 \<le> (curDash p mod 16) * 2 ^ 4" "(curDash p mod 16) * 2 ^ 4 < 256"
    using \<open>curDash p mod 16 < 16\<close> \<open>0 \<le> curDash p mod 16\<close> by simp_all
  ultimately show ?thesis
    unfolding dashByte_def js_and_15 s by (intro js_or_byte)
qed

lemma encodeUintAngle_range: "0 \<le> encodeUintAngle a \<and> encodeUintAngle a \<le> 255"
proof -
  have "\<lfloor>((a / pi + 1) / 2) * 255\<rfloor> mod 256 < 256" by simp
  then show ?thesis by (simp add: encodeUintAngle_def js_and_255)
qed

lemma writeUInt8_angle:
  "writeUInt8 (encodeUintAngle a) = Inr [U8 (word_of_int (encodeUintAngle a))]"
  using encodeUintAngle_range [of a] by (simp add: writeUInt8_def)

lemma writeUInt32LE_ushr:
  "\<exists>b0 b1 b2 b3. writeUInt32LE (js_ushr v 0) = Inr [U8 b0, U8 b1, U8 b2, U8 b3]"
proof -
  have "v mod 4294967296 < 4294967296" by simp
  then have "v mod 4294967296 \<le> 4294967295" by linarith
  then show ?thesis by (simp add: writeUInt32LE_def js_ushr_def uint_word_of_int)
qed

lemma writeUInt8_0: "writeUInt8 0 = Inr [U8 0]"
  by (simp add: writeUInt8_def)

lemma fishHeader_ok:
  "\<exists>h. writes (fishHeader p) = Inr h \<and> length h = 9 + min 20 (length (name p))"
proof -
  obtain b0 b1 b2 b3 where "writeUInt32LE (js_ushr (player_id p) 0) = Inr [U8 b0, U8 b1, U8 b2, U8 b3]"
    using writeUInt32LE_ushr by blast
  then show ?thesis
    by (simp add: fishHeader_def writeUInt8_masked writeUInt8_0 min.commute)
qed


lemma encodeParts_ok: "\<exists>segs. writes (encodeParts i bp qs) = Inr segs"
proof (induction qs arbitrary: i)
  case Nil
  show ?case by simp
next
  case (Cons q qs)
  from Cons.IH [of "Suc i"] obtain segs where "writes (encodeParts (Suc i) bp qs) = Inr segs" ..
  then show ?case
    by (cases "i = bp") (simp_all add: writeUInt8_angle writeFloatLE_def)
qed

lemma encodeParts_no_break:
  assumes "bp < i \<or> i + length qs \<le> bp"
  shows "writes (encodeParts i bp qs)
           = Inr (map (\<lambda>q. U8 (word_of_int (encodeUintAngle (part_rot q)))) qs)"
  using assms
proof (induction qs arbitrary: i)
  case Nil
  show ?case by simp
next
  case (Cons q qs)
  from Cons.prems have "bp < Suc i \<or> Suc i + length qs \<le> bp" and "i \<noteq> bp" by auto
  with Cons.IH [of "Suc i"] show ?case
    by (simp add: writeUInt8_angle)
qed

lemma writeUInt16LE_speed:
  "\<exists>b0 b1. writeUInt16LE (min \<lfloor>sqrt (a * a + b * b)\<rfloor> 65535) = Inr [U8 b0, U8 b1]"
proof -
  have "0 \<le> sqrt (a * a + b * b)" by simp
  then have "0 \<le> \<lfloor>sqrt (a * a + b * b)\<rfloor>" by (simp only: zero_le_floor)
  then show ?thesis by (simp add: writeUInt16LE_def)
qed

lemma encodeFishElement_shape:
  assumes "parts p = q0 # qs"
  shows "\<exists>h mid segs.
           encodeFishElement p = Inr (h @ U8 (word_of_int (teamLevelByte p)) # mid @ segs) \<and>
           length h = 9 + min 20 (length (name p)) \<and> length mid = 14 \<and>
           writes (encodeParts 1 (breakPoint p) qs) = Inr segs"
proof -
  obtain h where h: "writes (fishHeader p) = Inr h" "length h = 9 + min 20 (length (name p))"
    using fishHeader_ok by blast
  obtain segs where segs: "writes (encodeParts (Suc 0) (breakPoint p) qs) = Inr segs"
    using encodeParts_ok by blast
  obtain b0 b1 where sp: "writeUInt16LE (min \<lfloor>sqrt (part_vx q0 * part_vx q0 + part_vy q0 * part_vy q0)\<rfloor> 65535) = Inr [U8 b0, U8 b1]"
    using writeUInt16LE_speed by blast
  have tl: "writeUInt8 (teamLevelByte p) = Inr [U8 (word_of_int (teamLevelByte p))]"
    using teamLevelByte_range [of p] by (simp add: writeUInt8_def)
  have db: "writeUInt8 (dashByte p) = Inr [U8 (word_of_int (dashByte p))]"
    using dashByte_range [of p] by (simp add: writeUInt8_def)
  have ln: "writeUInt8 (min 255 (int (length qs))) = Inr [U8 (word_of_int (min 255 (int (length qs))))]"
    by (rule writeUInt8_byte) simp_all
  let ?mid = "[U8 (word_of_int \<lfloor>alpha p * 255\<rfloor>),
               U8 (word_of_int (dashByte p)),
               U8 (word_of_int \<lfloor>overDash p * 255\<rfloor>),
               U8 (word_of_int \<lfloor>tuskRatio p * 127\<rfloor>),
               U8 (word_of_int (decoration p)), F32 (part_x q0),
               F32 (part_y q0), U8 b0, U8 b1,
               U8 (word_of_int (encodeUintAngle (atan2 (part_vy q0) (part_vx q0)))),
               U8 (word_of_int (encodeUintAngle (part_rot q0))),
               U8 (word_of_int (skincode p)),
               U8 (word_of_int \<lfloor>invincibleDur p * 255\<rfloor>),
               U8 (word_of_int (min 255 (int (length qs))))]"
  have "encodeFishElement p = Inr (h @ U8 (word_of_int (teamLevelByte p)) # ?mid @ segs)"
    unfolding encodeFishElement_def assms list.case Let_def writes_append h sum.case
    by (simp add: tl db ln sp segs writeUInt8_masked writeUInt8_angle writeFloatLE_def)
  moreover have "length ?mid = 14" by simp
  ultimately show ?thesis using h(2) segs by (metis One_nat_def)
qed


section \<open>Angle quantization\<close>

text \<open>
  Claim C8, as amended. \<open>encodeUintAngle\<close> returns the low eight bits of
  \<open>floor(((angle/pi + 1)/2) * 255)\<close>, so for every angle its result is a single byte in
  \<open>[0, 255]\<close>; for every angle in \<open>[-pi, pi]\<close> the mask changes nothing and the result is
  the floor itself.
\<close>

theorem encodeUintAngle_masked:
  "encodeUintAngle a = \<lfloor>((a / pi + 1) / 2) * 255\<rfloor> mod 256 \<and>
   0 \<le> encodeUintAngle a \<and> encodeUintAngle a \<le> 255 \<and>
   (- pi \<le> a \<and> a \<le> pi \<longrightarrow> encodeUintAngle a = \<lfloor>((a / pi + 1) / 2) * 255\<rfloor>)"
proof -
  let ?v = "((a / pi + 1) / 2) * 255"
  have e: "encodeUintAngle a = \<lfloor>?v\<rfloor> mod 256"
    by (simp add: encodeUintAngle_def js_and_255)
  have "\<lfloor>?v\<rfloor> mod 256 < 256" by simp
  then have r: "0 \<le> \<lfloor>?v\<rfloor> mod 256" "\<lfloor>?v\<rfloor> mod 256 \<le> 255" by simp_all
  have "\<lfloor>?v\<rfloor> mod 256 = \<lfloor>?v\<rfloor>" if "- pi \<le> a" "a \<le> pi"
  proof -
    define x where "x = a / pi"
    have "- 1 \<le> x" using that by (simp add: x_def pos_le_divide_eq)
    moreover have "x \<le> 1" using that by (simp add: x_def pos_divide_le_eq)
    ultimately have "0 \<le> ((x + 1) / 2) * 255" "((x + 1) / 2) * 255 \<le> 255" by simp_all
    then have "0 \<le> ?v" "?v \<le> 255" by (simp_all only: x_def)
    then have "0 \<le> \<lfloor>?v\<rfloor>" "\<lfloor>?v\<rfloor> \<le> 255" by (simp_all add: floor_le_iff le_floor_iff)
    then show ?thesis by simp
  qed
  with e r show ?thesis by simp
qed

theorem encodeUintAngle_masked_witness:
  "encodeUintAngle 0 = \<lfloor>((0 / pi + 1) / 2) * 255\<rfloor> \<and> encodeUintAngle 0 = 127"
  using encodeUintAngle_masked [of 0] by simp

text \<open>
  Claim C8 as stated fails outside \<open>[-pi, pi]\<close>: at the angle \<open>2 * pi\<close> (a fresh player's
  angle is drawn from \<open>[0, 2 * pi)\<close>) the floor is 382 and the function returns 126.
\<close>

theorem encodeUintAngle_not_floor:
  "encodeUintAngle (2 * pi) \<noteq> \<lfloor>((2 * pi / pi + 1) / 2) * 255\<rfloor>"
  by (simp add: encodeUintAngle_def js_and_def)


section \<open>The packed team and level byte\<close>

lemma nth_after_prefix: "length h = n \<Longrightarrow> (h @ x # rest) ! n = x"
  by auto

text \<open>
  Claim C9. For a player of team \<open>-1\<close> the packed byte
  \<open>(team & 0xFF) | ((level & 0x1F) << 3)\<close> is 255 whatever the level, and 255 is the byte
  that stands in the FISH record after the name and its terminator; so the level cannot
  be read back. For a player of team \<open>1\<close> the byte is \<open>1 | ((level & 0x1F) << 3)\<close>, that
  is \<open>1 + 8 * (level mod 32)\<close>.
\<close>

theorem teamLevelByte_team:
  "(team p = - 1 \<longrightarrow>
      teamLevelByte p = 255 \<and>
      (\<forall>out. encodeFishElement p = Inr out \<longrightarrow> out ! (9 + min 20 (length (name p))) = U8 255)) \<and>
   (team p = 1 \<longrightarrow>
      teamLevelByte p = js_or 1 (js_shl (js_and (level p) 0x1F) 3) \<and>
      teamLevelByte p = 1 + 8 * (level p mod 32) \<and>
      (\<forall>out. encodeFishElement p = Inr out \<longrightarrow>
         out ! (9 + min 20 (length (name p))) = U8 (word_of_int (1 + 8 * (level p mod 32)))))"
proof -
  have a: "js_and (- 1) 0xFF = 255" "js_and 1 0xFF = 1" by (simp_all add: js_and_def)
  have pos: "out ! (9 + min 20 (length (name p))) = U8 (word_of_int (teamLevelByte p))"
    if "encodeFishElement p = Inr out" for out
  proof (cases "parts p")
    case Nil
    with that show ?thesis by (simp add: encodeFishElement_def)
  next
    case (Cons q0 qs)
    from encodeFishElement_shape [OF Cons] obtain h mid segs where
      e: "encodeFishElement p = Inr (h @ U8 (word_of_int (teamLevelByte p)) # mid @ segs)"
      and l: "length h = 9 + min 20 (length (name p))" by blast
    from e that have "out = h @ U8 (word_of_int (teamLevelByte p)) # mid @ segs" by simp
    then show ?thesis using nth_after_prefix [OF l] by simp
  qed
  have m: "team p = - 1 \<Longrightarrow> teamLevelByte p = 255"
    by (simp add: teamLevelByte_def a js_or_255_shl)
  have o: "team p = 1 \<Longrightarrow> teamLevelByte p = 1 + 8 * (level p mod 32)"
    by (simp add: teamLevelByte_def a js_or_1_shl)
  have o': "team p = 1 \<Longrightarrow> teamLevelByte p = js_or 1 (js_shl (js_and (level p) 0x1F) 3)"
    by (simp add: teamLevelByte_def a)
  show ?thesis
  proof (intro conjI impI allI)
    assume "team p = - 1" then show "teamLevelByte p = 255" by (rule m)
  next
    fix out assume "team p = - 1" "encodeFishElement p = Inr out"
    then show "out ! (9 + min 20 (length (name p))) = U8 255" using pos m by simp
  next
    assume "team p = 1" then show "teamLevelByte p = js_or 1 (js_shl (js_and (level p) 0x1F) 3)" by (rule o')
  next
    assume "team p = 1" then show "teamLevelByte p = 1 + 8 * (level p mod 32)" by (rule o)
  next
    fix out assume "team p = 1" "encodeFishElement p = Inr out"
    then show "out ! (9 + min 20 (length (name p))) = U8 (word_of_int (1 + 8 * (level p mod 32)))"
      using pos o by simp
  qed
qed

theorem teamLevelByte_team_witness:
  "team player0 = - 1 \<and> teamLevelByte player0 = 255 \<and>
   (\<exists>out. encodeFishElement player0 = Inr out \<and> out ! 10 = U8 255) \<and>
   teamLevelByte (player0\<lparr>team := 1, level := 7\<rparr>) = 57"
proof -
  obtain q0 qs where "parts player0 = q0 # qs"
    using player0_parts by (cases "parts player0") auto
  from encodeFishElement_shape [OF this] obtain out where out: "encodeFishElement player0 = Inr out"
    by blast
  have n: "name player0 = ''A''"
    by (simp add: player0_def Player_new_def randomColor_def Math_random_def Date_now_def Let_def)
  from teamLevelByte_team [of player0] player0_team out n
  have "teamLevelByte player0 = 255" "out ! 10 = U8 255" by simp_all
  moreover from teamLevelByte_team [of "player0\<lparr>team := 1, level := 7\<rparr>"]
  have "teamLevelByte (player0\<lparr>team := 1, level := 7\<rparr>) = 57" by simp
  ultimately show ?thesis using player0_team out by blast
qed

section \<open>What a dash does\<close>

lemma validateDash_eq:
  "validateDash p e =
     (\<not> curDash p \<le> 0 \<and> \<not> (lastDashTime p \<noteq> 0 \<and> clock e (clockReads e) - lastDashTime p < 100),
      e\<lparr>clockReads := Suc (clockReads e)\<rparr>)"
  by (simp add: validateDash_def Date_now_def)

lemma useDash_True:
  assumes "useDash p e = ((True, p1), e1)"
  shows "0 < curDash p \<and>
         p1 = p\<lparr>curDash := curDash p - 1, lastDashTime := clock e (Suc (clockReads e)),
                vel := \<lparr>vec_x = vec_x (vel p) + cos (angle p) * dashPower,
                        vec_y = vec_y (vel p) + sin (angle p) * dashPower\<rparr>\<rparr> \<and>
         e1 = e\<lparr>clockReads := Suc (Suc (clockReads e))\<rparr>"
  using assms
  by (auto simp add: useDash_def validateDash_eq Date_now_def Let_def split: if_splits)


section \<open>What a tick changes in a player\<close>

lemma length_updatePartsFrom: "length (updatePartsFrom i bp sz dt prev qs) = length qs"
  by (induction qs arbitrary: i prev) (simp_all add: Let_def)

lemma updateParts_ok:
  assumes "parts p \<noteq> []"
  shows "\<exists>p1. updateParts dt p = Inr p1 \<and> length (parts p1) = length (parts p) \<and>
              score p1 = score p \<and> kills p1 = kills p \<and> deaths p1 = deaths p \<and>
              maxDash p1 = maxDash p \<and> curDash p1 = curDash p \<and>
              breakPoint p1 = breakPoint p \<and> isAlive p1 = isAlive p \<and>
              currentRoom p1 = currentRoom p"
proof -
  from assms obtain q qs where "parts p = q # qs" by (cases "parts p") auto
  then show ?thesis
    by (simp add: updateParts_def Let_def length_updatePartsFrom)
qed

lemma processMovement_keeps:
  "parts (processMovement dt p) = parts p \<and>
   score (processMovement dt p) = score p \<and> kills (processMovement dt p) = kills p \<and>
   deaths (processMovement dt p) = deaths p \<and> maxDash (processMovement dt p) = maxDash p \<and>
   curDash (processMovement dt p) = curDash p \<and> breakPoint (processMovement dt p) = breakPoint p \<and>
   isAlive (processMovement dt p) = isAlive p \<and> currentRoom (processMovement dt p) = currentRoom p"
  by (simp add: processMovement_def Let_def)

lemma clampToWorld_keeps:
  "parts (clampToWorld rs p) = parts p \<and>
   score (clampToWorld rs p) = score p \<and> kills (clampToWorld rs p) = kills p \<and>
   deaths (clampToWorld rs p) = deaths p \<and> maxDash (clampToWorld rs p) = maxDash p \<and>
   curDash (clampToWorld rs p) = curDash p \<and> breakPoint (clampToWorld rs p) = breakPoint p \<and>
   isAlive (clampToWorld rs p) = isAlive p \<and> currentRoom (clampToWorld rs p) = currentRoom p"
  by (simp add: clampToWorld_def Let_def split: option.split)

lemma updateSize_keeps:
  "parts (updateSize p) = parts p \<and>
   score (updateSize p) = score p \<and> kills (updateSize p) = kills p \<and>
   deaths (updateSize p) = deaths p \<and> maxDash (updateSize p) = maxDash p \<and>
   curDash (updateSize p) = curDash p \<and> breakPoint (updateSize p) = breakPoint p \<and>
   isAlive (updateSize p) = isAlive p \<and> currentRoom (updateSize p) = currentRoom p \<and>
   level (updateSize p) = score p div 100 + 1 \<and>
   player_size (updateSize p) = 36 + (score p div 100) * 3"
  by (simp add: updateSize_def Let_def)

text \<open>An alive tick of a player that has parts succeeds and reads neither the clock nor
  the random source.\<close>

lemma update_alive:
  assumes "isAlive p" and "parts p \<noteq> []"
  shows "\<exists>p1. update dt rs p e = (Inr p1, e) \<and>
          length (parts p1) = length (parts p) \<and>
          score p1 = score p \<and> kills p1 = kills p \<and> deaths p1 = deaths p \<and>
          maxDash p1 = maxDash p \<and>
          (curDash p1 = curDash p \<or> curDash p < maxDash p \<and> curDash p1 = min (maxDash p) (curDash p + 1)) \<and>
          breakPoint p1 = breakPoint p \<and> isAlive p1 \<and> currentRoom p1 = currentRoom p \<and>
          level p1 = score p div 100 + 1 \<and>
          player_size p1 = 36 + (score p div 100) * 3"
proof -
  define p1 where "p1 = p\<lparr>invincibleDur := max 0 (invincibleDur p - dt)\<rparr>"
  define p2 where "p2 = (if curDash p1 < maxDash p1 then
                     (let p1a = p1\<lparr>overDash := overDash p1 + dt * dashRegenRate p1\<rparr>
                      in if overDash p1a \<ge> 1.0
                         then p1a\<lparr>curDash := min (maxDash p1a) (curDash p1a + 1), overDash := 0\<rparr>
                         else p1a)
                   else p1)"
  have p2: "parts p2 = parts p" "score p2 = score p" "kills p2 = kills p" "deaths p2 = deaths p"
    "maxDash p2 = maxDash p" "breakPoint p2 = breakPoint p" "isAlive p2" "currentRoom p2 = currentRoom p"
    "curDash p2 = curDash p \<or> curDash p < maxDash p \<and> curDash p2 = min (maxDash p) (curDash p + 1)"
    using assms(1) by (simp_all add: p2_def p1_def Let_def)
  let ?m = "processMovement dt p2"
  have "parts ?m \<noteq> []" using assms(2) p2(1) by (simp add: processMovement_keeps)
  from updateParts_ok [OF this, of dt] obtain p3 where
    p3: "updateParts dt ?m = Inr p3" "length (parts p3) = length (parts ?m)"
      "score p3 = score ?m" "kills p3 = kills ?m" "deaths p3 = deaths ?m"
      "maxDash p3 = maxDash ?m" "curDash p3 = curDash ?m"
      "breakPoint p3 = breakPoint ?m" "isAlive p3 = isAlive ?m"
      "currentRoom p3 = currentRoom ?m" by blast
  let ?p4 = "updateSize (clampToWorld rs p3)"
  have u: "update dt rs p e = (Inr (?p4\<lparr>lastPosition := pos ?p4\<rparr>), e)"
  proof -
    have "update dt rs p e =
            (case updateParts dt (processMovement dt p2) of
               Inl err \<Rightarrow> (Inl err, e)
             | Inr p3 \<Rightarrow>
                 (let p4 = updateSize (clampToWorld rs p3)
                  in (Inr (p4\<lparr>lastPosition := pos p4\<rparr>), e)))"
      unfolding update_def p2_def p1_def Let_def using assms(1) by simp
    then show ?thesis by (simp add: p3(1) Let_def)
  qed
  show ?thesis
    unfolding u using p2 p3
    by (simp add: updateSize_keeps clampToWorld_keeps processMovement_keeps)
qed


lemma length_spawnParts: "length (spawnParts i ps ang qs) = length qs"
  by (induction qs arbitrary: i) simp_all

lemma spawn_fields:
  "length (parts (fst (spawn room p e))) = length (parts p) \<and>
   score (fst (spawn room p e)) = score p \<and> kills (fst (spawn room p e)) = kills p \<and>
   deaths (fst (spawn room p e)) = deaths p \<and> maxDash (fst (spawn room p e)) = maxDash p \<and>
   curDash (fst (spawn room p e)) = maxDash p \<and> breakPoint (fst (spawn room p e)) = breakPoint p \<and>
   isAlive (fst (spawn room p e)) \<and> currentRoom (fst (spawn room p e)) = currentRoom p \<and>
   level (fst (spawn room p e)) = 1 \<and> player_size (fst (spawn room p e)) = 36"
  by (simp add: spawn_def Math_random_def Let_def length_spawnParts)


section \<open>A break point beyond the chain\<close>

lemma updatePartsFrom_no_break:
  assumes "bp < i \<or> i + length qs \<le> bp" and "k < length qs"
  shows "updatePartsFrom i bp sz dt prev qs ! k =
           chainFollow sz (if k = 0 then prev else updatePartsFrom i bp sz dt prev qs ! (k - 1)) (qs ! k)"
  using assms
proof (induction qs arbitrary: i prev k)
  case Nil
  then show ?case by simp
next
  case (Cons q qs)
  from Cons.prems(1) have ne: "i \<noteq> bp" and nx: "bp < Suc i \<or> Suc i + length qs \<le> bp" by auto
  show ?case
  proof (cases k)
    case 0
    with ne show ?thesis by (simp add: Let_def)
  next
    case (Suc j)
    with Cons.prems(2) have j: "j < length qs" by simp
    from Cons.IH [OF nx j, of "chainFollow sz prev q"] ne Suc show ?thesis
      by (cases j) (simp_all add: Let_def)
  qed
qed

lemma Player_new_breakPoint:
  "breakPoint (fst (Player_new ident sock nm e)) = 11 \<and>
   length (parts (fst (Player_new ident sock nm e))) = 11"
  by (simp add: Player_new_def randomColor_def Math_random_def Date_now_def Let_def initializeParts_def)

lemma updateParts_no_break:
  assumes qs: "parts p = q0 # qs" and bp: "length (parts p) \<le> breakPoint p"
  shows "\<exists>p1. updateParts dt p = Inr p1 \<and> length (parts p1) = length (parts p) \<and>
            (\<forall>i. 1 \<le> i \<and> i < length (parts p) \<longrightarrow>
               parts p1 ! i = chainFollow (player_size p) (parts p1 ! (i - 1)) (parts p ! i))"
proof -
  define h where "h = q0\<lparr>part_x := vec_x (pos p), part_y := vec_y (pos p), part_rot := angle p,
                      part_vx := vec_x (vel p), part_vy := vec_y (vel p)\<rparr>"
  define us where "us = updatePartsFrom 1 (breakPoint p) (player_size p) dt h qs"
  have u: "updateParts dt p = Inr (p\<lparr>parts := h # us\<rparr>)"
    by (simp add: updateParts_def qs Let_def h_def us_def)
  have lu: "length us = length qs" by (simp add: us_def length_updatePartsFrom)
  have "(h # us) ! i = chainFollow (player_size p) ((h # us) ! (i - 1)) ((q0 # qs) ! i)"
    if "1 \<le> i" "i < length (q0 # qs)" for i
  proof -
    from that obtain k where i: "i = Suc k" and k: "k < length qs" by (cases i) auto
    have "us ! k = chainFollow (player_size p) (if k = 0 then h else us ! (k - 1)) (qs ! k)"
      unfolding us_def by (rule updatePartsFrom_no_break) (use k bp qs in simp_all)
    then show ?thesis unfolding i by (cases k) simp_all
  qed
  then show ?thesis using u lu qs by simp
qed

lemma encodeFishElement_no_break:
  assumes qs: "parts p = q0 # qs" and bp: "length (parts p) \<le> breakPoint p"
  shows "\<exists>pre. encodeFishElement p
               = Inr (pre @ map (\<lambda>q. U8 (word_of_int (encodeUintAngle (part_rot q)))) (tl (parts p)))"
proof -
  from encodeFishElement_shape [OF qs] obtain hd mid segs where
    e: "encodeFishElement p = Inr (hd @ U8 (word_of_int (teamLevelByte p)) # mid @ segs)"
    and s: "writes (encodeParts 1 (breakPoint p) qs) = Inr segs" by blast
  have "writes (encodeParts 1 (breakPoint p) qs)
          = Inr (map (\<lambda>q. U8 (word_of_int (encodeUintAngle (part_rot q)))) qs)"
    by (rule encodeParts_no_break) (use bp qs in simp)
  with s have "segs = map (\<lambda>q. U8 (word_of_int (encodeUintAngle (part_rot q)))) qs" by simp
  with e have "encodeFishElement p
       = Inr ((hd @ U8 (word_of_int (teamLevelByte p)) # mid) @
              map (\<lambda>q. U8 (word_of_int (encodeUintAngle (part_rot q)))) (tl (parts p)))"
    by (simp add: qs)
  then show ?thesis by blast
qed

lemma chainFollow_oriRot: "part_oriRot (chainFollow sz prev q) = part_rot (chainFollow sz prev q)"
  by (simp add: chainFollow_def Let_def)

lemma player0_breakPoint: "breakPoint player0 = 11"
  unfolding player0_def using Player_new_breakPoint by simp

lemma player0_part10:
  "part_rot (parts player0 ! 10) = pi \<and> part_oriRot (parts player0 ! 10) = 0 \<and>
   part_vt (parts player0 ! 10) = 0"
  by (simp add: player0_def Player_new_def randomColor_def Math_random_def Date_now_def Let_def
      initializeParts_def NarwhalePart_new_def env0_def)


section \<open>Chain length and dash charge are kept by every call\<close>

lemma chainAndDashOk_frame:
  assumes "chainAndDashOk p" and "length (parts q) = length (parts p)"
    and "curDash q = curDash p" and "maxDash q = maxDash p"
  shows "chainAndDashOk q"
  using assms by (simp add: chainAndDashOk_def)

lemma Player_new_ok: "chainAndDashOk (fst (Player_new ident sock nm e))"
  by (simp add: chainAndDashOk_def Player_new_def randomColor_def Math_random_def Date_now_def Let_def
      initializeParts_def)

lemma spawn_ok: "chainAndDashOk p \<Longrightarrow> chainAndDashOk (fst (spawn room p e))"
  using spawn_fields [of room p e] by (simp add: chainAndDashOk_def)

lemma setTarget_ok: "chainAndDashOk p \<Longrightarrow> chainAndDashOk (setTarget tx ty rs p)"
  by (simp add: chainAndDashOk_def setTarget_def split: option.split)

lemma useDash_ok: "chainAndDashOk p \<Longrightarrow> chainAndDashOk (snd (fst (useDash p e)))"
  by (simp add: chainAndDashOk_def useDash_def validateDash_eq Date_now_def Let_def)

lemma die_ok: "chainAndDashOk p \<Longrightarrow> chainAndDashOk (fst (die p e))"
  by (simp add: chainAndDashOk_def die_def Date_now_def)

lemma takeDamage_ok:
  assumes "chainAndDashOk p" and "\<And>a. att = Other a \<Longrightarrow> chainAndDashOk a"
  shows "chainAndDashOk (fst (snd (fst (takeDamage p amount att e)))) \<and>
         (\<forall>a1. snd (snd (fst (takeDamage p amount att e))) = Other a1 \<longrightarrow> chainAndDashOk a1)"
  using assms
  by (cases att) (auto simp add: takeDamage_def die_def Date_now_def chainAndDashOk_def)

lemma update_ok:
  assumes "chainAndDashOk p"
  shows "\<exists>p1 e1. update dt rs p e = (Inr p1, e1) \<and> chainAndDashOk p1"
proof (cases "isAlive p")
  case True
  from assms have "parts p \<noteq> []" by (auto simp add: chainAndDashOk_def)
  from update_alive [OF True this, of dt rs e] obtain p1 where
    "update dt rs p e = (Inr p1, e)" "length (parts p1) = length (parts p)" "maxDash p1 = maxDash p"
    "curDash p1 = curDash p \<or> curDash p < maxDash p \<and> curDash p1 = min (maxDash p) (curDash p + 1)"
    by blast
  moreover from this(2-4) assms have "chainAndDashOk p1"
    by (auto simp add: chainAndDashOk_def)
  ultimately show ?thesis by blast
next
  case False
  show ?thesis
  proof (cases "clock e (clockReads e) > respawnTime p \<and> lookupRoom rs p \<noteq> None")
    case True
    then obtain room where r: "lookupRoom rs p = Some room" by auto
    obtain p1 e2 where s: "spawn room p (e\<lparr>clockReads := Suc (clockReads e)\<rparr>) = (p1, e2)"
      by (cases "spawn room p (e\<lparr>clockReads := Suc (clockReads e)\<rparr>)")
    with spawn_ok [OF assms, of room "e\<lparr>clockReads := Suc (clockReads e)\<rparr>"]
    have "chainAndDashOk p1" by simp
    moreover have "update dt rs p e = (Inr p1, e2)"
      using False True r s by (simp add: update_def Date_now_def)
    ultimately show ?thesis by blast
  next
    case False
    with \<open>\<not> isAlive p\<close> have "update dt rs p e = (Inr p, e\<lparr>clockReads := Suc (clockReads e)\<rparr>)"
      by (auto simp add: update_def Date_now_def split: option.split)
    with assms show ?thesis by blast
  qed
qed


lemma list_update_ok:
  assumes "\<forall>p\<in>set ps. P p" and "P x"
  shows "\<forall>p\<in>set (ps[i := x]). P p"
  using assms set_update_subset_insert [of ps i x] by auto

lemma damageAt_ok:
  assumes "\<forall>p\<in>set ps. chainAndDashOk p" and "v < length ps" and "a < length ps"
  shows "(\<forall>p\<in>set (fst (damageAt v a ps e)). chainAndDashOk p) \<and>
         length (fst (damageAt v a ps e)) = length ps"
proof -
  obtain r v1 att1 e1 where t: "takeDamage (ps ! v) collisionDamage (Other (ps ! a)) e = ((r, v1, att1), e1)"
    by (metis prod.exhaust)
  from assms have okv: "chainAndDashOk (ps ! v)" and oka: "chainAndDashOk (ps ! a)" by simp_all
  from takeDamage_ok [of "ps ! v" "Other (ps ! a)" collisionDamage e] okv oka t
  have v1: "chainAndDashOk v1" and a1: "\<forall>a1. att1 = Other a1 \<longrightarrow> chainAndDashOk a1" by simp_all
  show ?thesis
  proof (cases att1)
    case (Other a1)
    with a1 have "chainAndDashOk a1" by simp
    with assms(1) v1 have "\<forall>p\<in>set (ps[a := a1, v := v1]). chainAndDashOk p"
      by (intro list_update_ok)
    with Other t show ?thesis by (simp add: damageAt_def)
  next
    case Null
    from assms(1) v1 have "\<forall>p\<in>set (ps[v := v1]). chainAndDashOk p" by (intro list_update_ok)
    with Null t show ?thesis by (simp add: damageAt_def)
  next
    case This
    from assms(1) v1 have "\<forall>p\<in>set (ps[v := v1]). chainAndDashOk p" by (intro list_update_ok)
    with This t show ?thesis by (simp add: damageAt_def)
  qed
qed

lemma collidePair_ok:
  assumes "\<forall>p\<in>set ps. chainAndDashOk p" and "a < length ps" and "b < length ps"
  shows "(\<forall>p\<in>set (fst (collidePair a b ps e)). chainAndDashOk p) \<and>
         length (fst (collidePair a b ps e)) = length ps"
  using damageAt_ok [OF assms(1) assms(3) assms(2), of e] damageAt_ok [OF assms(1) assms(2) assms(3), of e] assms(1)
  by (simp add: collidePair_def Let_def)

lemma pvpInner_ok:
  assumes "\<forall>p\<in>set ps. chainAndDashOk p" and "a < length ps" and "\<forall>b\<in>set bs. b < length ps"
  shows "(\<forall>p\<in>set (fst (pvpInner a bs ps e)). chainAndDashOk p) \<and>
         length (fst (pvpInner a bs ps e)) = length ps"
  using assms
proof (induction bs arbitrary: ps e)
  case Nil
  then show ?case by simp
next
  case (Cons b bs)
  obtain ps1 e1 where c: "collidePair a b ps e = (ps1, e1)" by (cases "collidePair a b ps e")
  from collidePair_ok [OF Cons.prems(1,2), of b e] Cons.prems(3) c
  have ok1: "\<forall>p\<in>set ps1. chainAndDashOk p" and l1: "length ps1 = length ps" by simp_all
  from Cons.IH [OF ok1, of e1] l1 Cons.prems(2,3) c show ?case by simp
qed

lemma pvpOuter_ok:
  assumes "\<forall>p\<in>set ps. chainAndDashOk p" and "\<forall>b\<in>set as. b < length ps"
  shows "(\<forall>p\<in>set (fst (pvpOuter as ps e)). chainAndDashOk p) \<and>
         length (fst (pvpOuter as ps e)) = length ps"
  using assms
proof (induction as arbitrary: ps e)
  case Nil
  then show ?case by simp
next
  case (Cons a as)
  obtain ps1 e1 where c: "pvpInner a as ps e = (ps1, e1)" by (cases "pvpInner a as ps e")
  from pvpInner_ok [OF Cons.prems(1), of a as e] Cons.prems(2) c
  have ok1: "\<forall>p\<in>set ps1. chainAndDashOk p" and l1: "length ps1 = length ps" by simp_all
  from Cons.IH [OF ok1, of e1] l1 Cons.prems(2) c show ?case by simp
qed

lemma eatFoods_ok:
  assumes "\<forall>p\<in>set ps. chainAndDashOk p" and "a < length ps"
  shows "(\<forall>p\<in>set (fst (fst (eatFoods a n opts ps fs e))). chainAndDashOk p) \<and>
         length (fst (fst (eatFoods a n opts ps fs e))) = length ps"
  using assms
proof (induction n arbitrary: ps fs e)
  case 0
  then show ?case by simp
next
  case (Suc i)
  let ?pl = "ps ! a"
  let ?ps1 = "ps[a := ?pl\<lparr>score := score ?pl + food_value (fs ! i) * 10\<rparr>]"
  from Suc.prems have "chainAndDashOk ?pl" by simp
  then have "chainAndDashOk (?pl\<lparr>score := score ?pl + food_value (fs ! i) * 10\<rparr>)"
    by (simp add: chainAndDashOk_def)
  with Suc.prems(1) have ok1: "\<forall>p\<in>set ?ps1. chainAndDashOk p" by (intro list_update_ok)
  have l1: "a < length ?ps1" using Suc.prems(2) by simp
  note ih1 = Suc.IH [OF ok1 l1] and ih0 = Suc.IH [OF Suc.prems]
  show ?case
    using ih1 ih0 by (simp add: Let_def split_def)
qed

lemma foodSweep_ok:
  assumes "\<forall>p\<in>set ps. chainAndDashOk p" and "\<forall>b\<in>set as. b < length ps"
  shows "(\<forall>p\<in>set (fst (fst (foodSweep as opts ps fs e))). chainAndDashOk p) \<and>
         length (fst (fst (foodSweep as opts ps fs e))) = length ps"
  using assms
proof (induction as arbitrary: ps fs e)
  case Nil
  then show ?case by simp
next
  case (Cons a as)
  obtain ps1 fs1 e1 where c: "eatFoods a (length fs) opts ps fs e = ((ps1, fs1), e1)"
    by (metis prod.exhaust)
  from eatFoods_ok [OF Cons.prems(1), of a "length fs" opts fs e] Cons.prems(2) c
  have ok1: "\<forall>p\<in>set ps1. chainAndDashOk p" and l1: "length ps1 = length ps" by simp_all
  from Cons.IH [OF ok1, of fs1 e1] l1 Cons.prems(2) c show ?case by simp
qed

lemma aliveIndices_bound: "\<forall>b\<in>set (aliveIndices ps). b < length ps"
  by (simp add: aliveIndices_def)

lemma checkCollisions_ok:
  assumes "allPlayersOk room"
  shows "allPlayersOk (fst (checkCollisions room e))"
proof -
  let ?ps = "map snd (players room)"
  let ?al = "aliveIndices ?ps"
  obtain ps1 e1 where a: "pvpOuter ?al ?ps e = (ps1, e1)" by (cases "pvpOuter ?al ?ps e")
  obtain ps2 fs2 e2 where b: "foodSweep ?al (options room) ps1 (foods room) e1 = ((ps2, fs2), e2)"
    by (metis prod.exhaust)
  from assms have ok: "\<forall>p\<in>set ?ps. chainAndDashOk p" by (simp add: allPlayersOk_def)
  from pvpOuter_ok [OF ok aliveIndices_bound, of e] a
  have ok1: "\<forall>p\<in>set ps1. chainAndDashOk p" and l1: "length ps1 = length ?ps" by simp_all
  from aliveIndices_bound [of ?ps] l1 have "\<forall>b\<in>set ?al. b < length ps1" by simp
  from foodSweep_ok [OF ok1 this, of "options room" "foods room" e1] b
  have ok2: "\<forall>p\<in>set ps2. chainAndDashOk p" and l2: "length ps2 = length ps1" by simp_all
  have "map snd (zip (map fst (players room)) ps2) = ps2" using l1 l2 by simp
  with ok2 have "allPlayersOk (room\<lparr>players := zip (map fst (players room)) ps2, foods := fs2\<rparr>)"
    by (simp add: allPlayersOk_def)
  then show ?thesis using a b by (simp add: checkCollisions_def Let_def)
qed

lemma updatePlayers_ok:
  assumes "\<forall>p\<in>set (map snd kps). chainAndDashOk p"
  shows "\<exists>kps1 e1. updatePlayers dt rs kps e = (Inr kps1, e1) \<and>
           (\<forall>p\<in>set (map snd kps1). chainAndDashOk p)"
  using assms
proof (induction kps arbitrary: e)
  case Nil
  then show ?case by simp
next
  case (Cons kp kps)
  obtain k p where kp: "kp = (k, p)" by (cases kp)
  with Cons.prems have "chainAndDashOk p" by simp
  from update_ok [OF this, of dt rs e] obtain p1 e1 where
    u: "update dt rs p e = (Inr p1, e1)" and ok1: "chainAndDashOk p1" by blast
  from Cons.prems have "\<forall>p\<in>set (map snd kps). chainAndDashOk p" by simp
  from Cons.IH [OF this, of e1] obtain kps1 e2 where
    r: "updatePlayers dt rs kps e1 = (Inr kps1, e2)" and ok2: "\<forall>p\<in>set (map snd kps1). chainAndDashOk p"
    by blast
  from u r ok1 ok2 show ?case by (simp add: kp)
qed

lemma GameRoom_update_ok:
  assumes "allPlayersOk room"
  shows "\<exists>room1 e1. GameRoom_update dt rs room e = (Inr room1, e1) \<and> allPlayersOk room1"
proof -
  from assms have "\<forall>p\<in>set (map snd (players room)). chainAndDashOk p" by (simp add: allPlayersOk_def)
  from updatePlayers_ok [OF this, of dt rs e] obtain kps e1 where
    u: "updatePlayers dt rs (players room) e = (Inr kps, e1)"
    and ok: "\<forall>p\<in>set (map snd kps). chainAndDashOk p" by blast
  obtain room1 e2 where c: "checkCollisions (room\<lparr>players := kps\<rparr>) e1 = (room1, e2)"
    by (cases "checkCollisions (room\<lparr>players := kps\<rparr>) e1")
  from ok have "allPlayersOk (room\<lparr>players := kps\<rparr>)" by (simp add: allPlayersOk_def)
  from checkCollisions_ok [OF this, of e1] c have ok1: "allPlayersOk room1" by simp
  then have "allPlayersOk (room1\<lparr>foods := fs\<rparr>)" for fs by (simp add: allPlayersOk_def)
  with ok1 u c show ?thesis
    by (simp add: GameRoom_update_def Let_def split_def)
qed


lemma replaceAt_ok:
  assumes "\<forall>p\<in>set (map snd kps). chainAndDashOk p" and "chainAndDashOk q"
  shows "\<forall>p\<in>set (map snd (replaceAt k q kps)). chainAndDashOk p"
  using assms by (auto simp add: replaceAt_def split: if_splits)

lemma Map_set_ok:
  assumes "\<forall>p\<in>set (map snd kps). chainAndDashOk p" and "chainAndDashOk q"
  shows "\<forall>p\<in>set (map snd (Map_set k q kps)). chainAndDashOk p"
  using assms by (auto simp add: Map_set_def split: if_splits)

lemma map_of_ok:
  assumes "allPlayersOk room" and "map_of (players room) k = Some p"
  shows "chainAndDashOk p"
  using assms map_of_SomeD [of "players room" k p] by (force simp add: allPlayersOk_def)

lemma addPlayer_ok:
  assumes "allPlayersOk room" and "chainAndDashOk p"
  shows "allPlayersOk (fst (addPlayer p room e))"
proof -
  from assms(2) have "chainAndDashOk (p\<lparr>currentRoom := Some (room_id room)\<rparr>)"
    by (simp add: chainAndDashOk_def)
  then have "chainAndDashOk (fst (spawn (options room) (p\<lparr>currentRoom := Some (room_id room)\<rparr>) e))"
    by (rule spawn_ok)
  moreover from assms(1) have "\<forall>p\<in>set (map snd (players room)). chainAndDashOk p"
    by (simp add: allPlayersOk_def)
  ultimately have "\<forall>q\<in>set (map snd (Map_set (player_id p)
        (fst (spawn (options room) (p\<lparr>currentRoom := Some (room_id room)\<rparr>) e)) (players room))). chainAndDashOk q"
    by (intro Map_set_ok)
  then show ?thesis
    by (simp add: addPlayer_def split_def Let_def allPlayersOk_def)
qed

lemma allPlayersOk_replaceAt:
  assumes "allPlayersOk room" and "chainAndDashOk q"
  shows "allPlayersOk (room\<lparr>players := replaceAt k q (players room)\<rparr>)"
proof -
  from assms(1) have "\<forall>p\<in>set (map snd (players room)). chainAndDashOk p"
    by (simp add: allPlayersOk_def)
  then have "\<forall>p\<in>set (map snd (replaceAt k q (players room))). chainAndDashOk p"
    using assms(2) by (rule replaceAt_ok)
  then show ?thesis by (simp add: allPlayersOk_def)
qed

lemma step_Tick: "step rs (Tick dt) room e = GameRoom_update dt rs room e"
  by (simp add: step_def)

lemma step_AddPlayer:
  "step rs (AddPlayer ident sock nm) room e =
     (Inr (fst (addPlayer (fst (Player_new ident sock nm e)) room (snd (Player_new ident sock nm e)))),
      snd (addPlayer (fst (Player_new ident sock nm e)) room (snd (Player_new ident sock nm e))))"
  by (simp add: step_def split_def Let_def)

lemma step_missing:
  assumes "map_of (players room) k = None"
  shows "step rs (SetTarget k tx ty) room e = (Inr room, e)"
    and "step rs (UseDash k) room e = (Inr room, e)"
    and "step rs (TakeDamage k amount a) room e = (Inr room, e)"
    and "step rs (Spawn k) room e = (Inr room, e)"
  using assms by (simp_all add: step_def)

lemma step_SetTarget:
  assumes "map_of (players room) k = Some p"
  shows "step rs (SetTarget k tx ty) room e
           = (Inr (room\<lparr>players := replaceAt k (setTarget tx ty rs p) (players room)\<rparr>), e)"
  using assms by (simp add: step_def)

lemma step_UseDash:
  assumes "map_of (players room) k = Some p"
  shows "step rs (UseDash k) room e
           = (Inr (room\<lparr>players := replaceAt k (snd (fst (useDash p e))) (players room)\<rparr>),
              snd (useDash p e))"
  using assms by (simp add: step_def split_def Let_def)

lemma step_Spawn:
  assumes "map_of (players room) k = Some p"
  shows "step rs (Spawn k) room e
           = (Inr (room\<lparr>players := replaceAt k (fst (spawn (options room) p e)) (players room)\<rparr>),
              snd (spawn (options room) p e))"
  using assms by (simp add: step_def split_def Let_def)

lemma step_TakeDamage:
  assumes "map_of (players room) k = Some p"
    and "att = (case a of
                  None \<Rightarrow> Null
                | Some ka \<Rightarrow>
                    if ka = k then This
                    else (case map_of (players room) ka of None \<Rightarrow> Null | Some pa \<Rightarrow> Other pa))"
    and "takeDamage p amount att e = ((r, p1, att1), e1)"
  shows "step rs (TakeDamage k amount a) room e
           = (Inr (room\<lparr>players :=
                       (case (a, att1) of
                          (Some ka, Other pa1) \<Rightarrow> replaceAt ka pa1 (replaceAt k p1 (players room))
                        | _ \<Rightarrow> replaceAt k p1 (players room))\<rparr>), e1)"
  using assms(1,3) unfolding assms(2) by (simp add: step_def Let_def)

lemma step_ok:
  assumes "allPlayersOk room"
  shows "\<exists>room1 e1. step rs c room e = (Inr room1, e1) \<and> allPlayersOk room1"
proof (cases c)
  case (Tick dt)
  with GameRoom_update_ok [OF assms, of dt rs e] show ?thesis by (simp only: step_Tick)
next
  case (AddPlayer ident sock nm)
  from addPlayer_ok [OF assms Player_new_ok, of ident sock nm e "snd (Player_new ident sock nm e)"]
  show ?thesis unfolding AddPlayer step_AddPlayer by blast
next
  case (SetTarget k tx ty)
  show ?thesis
  proof (cases "map_of (players room) k")
    case None
    with assms show ?thesis unfolding SetTarget by (simp only: step_missing) blast
  next
    case (Some p)
    from map_of_ok [OF assms Some] have "chainAndDashOk (setTarget tx ty rs p)" by (rule setTarget_ok)
    with assms have "allPlayersOk (room\<lparr>players := replaceAt k (setTarget tx ty rs p) (players room)\<rparr>)"
      by (intro allPlayersOk_replaceAt)
    then show ?thesis unfolding SetTarget step_SetTarget [OF Some] by blast
  qed
next
  case (UseDash k)
  show ?thesis
  proof (cases "map_of (players room) k")
    case None
    with assms show ?thesis unfolding UseDash by (simp only: step_missing) blast
  next
    case (Some p)
    from map_of_ok [OF assms Some] have "chainAndDashOk (snd (fst (useDash p e)))" by (rule useDash_ok)
    with assms have "allPlayersOk (room\<lparr>players := replaceAt k (snd (fst (useDash p e))) (players room)\<rparr>)"
      by (intro allPlayersOk_replaceAt)
    then show ?thesis unfolding UseDash step_UseDash [OF Some] by blast
  qed
next
  case (TakeDamage k amount a)
  show ?thesis
  proof (cases "map_of (players room) k")
    case None
    with assms show ?thesis unfolding TakeDamage by (simp only: step_missing) blast
  next
    case (Some p)
    define att where "att = (case a of
                  None \<Rightarrow> Null
                | Some ka \<Rightarrow>
                    if ka = k then This
                    else (case map_of (players room) ka of None \<Rightarrow> Null | Some pa \<Rightarrow> Other pa))"
    have oka: "chainAndDashOk pa" if "att = Other pa" for pa
    proof -
      from that obtain ka where "a = Some ka" "map_of (players room) ka = Some pa"
        by (auto simp add: att_def split: option.splits if_splits)
      then show ?thesis using map_of_ok [OF assms] by blast
    qed
    obtain r p1 att1 e1 where t: "takeDamage p amount att e = ((r, p1, att1), e1)"
      by (cases "takeDamage p amount att e") auto
    from takeDamage_ok [of p att amount e] map_of_ok [OF assms Some] oka t
    have p1: "chainAndDashOk p1" and a1: "\<forall>pa1. att1 = Other pa1 \<longrightarrow> chainAndDashOk pa1" by simp_all
    from assms have ok: "\<forall>p\<in>set (map snd (players room)). chainAndDashOk p"
      by (simp add: allPlayersOk_def)
    have ok1: "\<forall>p\<in>set (map snd (replaceAt k p1 (players room))). chainAndDashOk p"
      using ok p1 by (rule replaceAt_ok)
    define kps2 where "kps2 = (case (a, att1) of
                         (Some ka, Other pa1) \<Rightarrow> replaceAt ka pa1 (replaceAt k p1 (players room))
                       | _ \<Rightarrow> replaceAt k p1 (players room))"
    have "\<forall>p\<in>set (map snd kps2). chainAndDashOk p"
    proof (cases a)
      case None
      with ok1 show ?thesis by (simp add: kps2_def)
    next
      case (Some ka)
      show ?thesis
      proof (cases att1)
        case (Other pa1)
        with a1 have "chainAndDashOk pa1" by simp
        from replaceAt_ok [OF ok1 this, of ka] Some Other show ?thesis by (simp add: kps2_def)
      next
        case Null
        with ok1 Some show ?thesis by (simp add: kps2_def)
      next
        case This
        with ok1 Some show ?thesis by (simp add: kps2_def)
      qed
    qed
    then have "allPlayersOk (room\<lparr>players := kps2\<rparr>)" by (simp add: allPlayersOk_def)
    moreover have "step rs c room e = (Inr (room\<lparr>players := kps2\<rparr>), e1)"
      unfolding TakeDamage kps2_def by (rule step_TakeDamage [OF Some att_def t])
    ultimately show ?thesis by blast
  qed
next
  case (Spawn k)
  show ?thesis
  proof (cases "map_of (players room) k")
    case None
    with assms show ?thesis unfolding Spawn by (simp only: step_missing) blast
  next
    case (Some p)
    from map_of_ok [OF assms Some] have "chainAndDashOk (fst (spawn (options room) p e))" by (rule spawn_ok)
    with assms have "allPlayersOk (room\<lparr>players := replaceAt k (fst (spawn (options room) p e)) (players room)\<rparr>)"
      by (intro allPlayersOk_replaceAt)
    then show ?thesis unfolding Spawn step_Spawn [OF Some] by blast
  qed
qed

lemma run_example:
  "\<exists>p e1. run rooms0 [AddPlayer 1001 True ''A'', UseDash 1001] emptyRoom env0
           = (Inr (emptyRoom\<lparr>players := [(1001, p)], playerCount := 1\<rparr>), e1) \<and> curDash p = 4"
  by (simp add: step_def addPlayer_def Player_new_def randomColor_def Math_random_def Date_now_def
      spawn_def useDash_def validateDash_def Map_set_def replaceAt_def Let_def emptyRoom_def env0_def)


section \<open>The effect of the sweep over pairs of players\<close>

lemma Vec2_distance_commute: "Vec2_distance a b = Vec2_distance b a"
proof -
  have "(x - y) * (x - y) = (y - x) * (y - x)" for x y :: real by (simp add: algebra_simps)
  then show ?thesis by (simp add: Vec2_distance_def Let_def)
qed

lemma beats_exclusive: "beats u v \<Longrightarrow> \<not> beats v u"
  by (simp add: beats_def)

lemma not_beats_self: "\<not> beats u u"
  by (simp add: beats_def)

lemma damageAt_invincible:
  assumes "invincibleDur (ps ! v) > 0"
  shows "damageAt v a ps e = (ps, e)"
  using assms by (simp add: damageAt_def takeDamage_def)

lemma damageAt_applied:
  assumes "\<not> invincibleDur (ps ! v) > 0"
  shows "damageAt v a ps e =
           (ps[a := (ps ! a)\<lparr>kills := kills (ps ! a) + 1,
                              score := score (ps ! a) + (100 + level (ps ! v) * 20)\<rparr>,
               v := fst (die (ps ! v) e)], snd (die (ps ! v) e))"
  using assms by (simp add: damageAt_def takeDamage_def split_def Let_def)

lemma collidePair_cases:
  "collidePair a b ps e =
     (if damages (ps ! a) (ps ! b) then
        (ps[a := (ps ! a)\<lparr>kills := kills (ps ! a) + 1,
                           score := score (ps ! a) + (100 + level (ps ! b) * 20)\<rparr>,
            b := fst (die (ps ! b) e)], snd (die (ps ! b) e))
      else if damages (ps ! b) (ps ! a) then
        (ps[b := (ps ! b)\<lparr>kills := kills (ps ! b) + 1,
                           score := score (ps ! b) + (100 + level (ps ! a) * 20)\<rparr>,
            a := fst (die (ps ! a) e)], snd (die (ps ! a) e))
      else (ps, e))"
proof -
  let ?d = "Vec2_distance (pos (ps ! a)) (pos (ps ! b))"
  let ?c = "real_of_int (player_size (ps ! a) + player_size (ps ! b)) * 0.6"
  have ba: "beats (ps ! b) (ps ! a) \<longleftrightarrow> ?d < ?c \<and> player_size (ps ! a) - player_size (ps ! b) < - 10"
    by (auto simp add: beats_def Vec2_distance_commute [of "pos (ps ! b)"] add.commute)
  have ab: "beats (ps ! a) (ps ! b) \<longleftrightarrow> ?d < ?c \<and> player_size (ps ! a) - player_size (ps ! b) > 10"
    by (simp add: beats_def)
  show ?thesis
  proof (cases "?d < ?c")
    case False
    then show ?thesis by (simp add: collidePair_def Let_def damages_def ab ba)
  next
    case True
    consider (gt) "player_size (ps ! a) - player_size (ps ! b) > 10"
      | (lt) "player_size (ps ! a) - player_size (ps ! b) < - 10"
      | (mid) "\<not> player_size (ps ! a) - player_size (ps ! b) > 10"
              "\<not> player_size (ps ! a) - player_size (ps ! b) < - 10" by linarith
    then show ?thesis
    proof cases
      case gt
      then have n: "\<not> player_size (ps ! a) - player_size (ps ! b) < - 10" by simp
      show ?thesis
      proof (cases "invincibleDur (ps ! b) > 0")
        case True
        with \<open>?d < ?c\<close> gt n show ?thesis
          by (simp add: collidePair_def Let_def damages_def ab ba damageAt_invincible)
      next
        case False
        with \<open>?d < ?c\<close> gt n show ?thesis
          by (simp add: collidePair_def Let_def damages_def ab ba damageAt_applied)
      qed
    next
      case lt
      then have n: "\<not> player_size (ps ! a) - player_size (ps ! b) > 10" by simp
      show ?thesis
      proof (cases "invincibleDur (ps ! a) > 0")
        case True
        with \<open>?d < ?c\<close> lt n show ?thesis
          by (simp add: collidePair_def Let_def damages_def ab ba damageAt_invincible)
      next
        case False
        with \<open>?d < ?c\<close> lt n show ?thesis
          by (simp add: collidePair_def Let_def damages_def ab ba damageAt_applied)
      qed
    next
      case mid
      with \<open>?d < ?c\<close> show ?thesis
        by (simp add: collidePair_def Let_def damages_def ab ba)
    qed
  qed
qed


lemma die_fields:
  "pos (fst (die p e)) = pos p \<and> player_size (fst (die p e)) = player_size p \<and>
   invincibleDur (fst (die p e)) = invincibleDur p \<and> deaths (fst (die p e)) = deaths p + 1 \<and>
   kills (fst (die p e)) = kills p \<and> \<not> isAlive (fst (die p e))"
  by (simp add: die_def Date_now_def)

lemma sameBodies_damages:
  assumes "sameBodies ps0 ps" and "u < length ps0" and "v < length ps0"
  shows "damages (ps ! u) (ps ! v) = damages (ps0 ! u) (ps0 ! v)"
  using assms by (simp add: sameBodies_def damages_def beats_def)

lemma sameBodies_refl: "sameBodies ps ps"
  by (simp add: sameBodies_def)

lemma not_damages_self: "\<not> damages u u"
  by (simp add: damages_def not_beats_self)

lemma damages_exclusive: "damages u v \<Longrightarrow> \<not> damages v u"
  using beats_exclusive by (auto simp add: damages_def)

lemma collidePair_effect:
  assumes sb: "sameBodies ps0 ps" and a: "a < length ps0" and b: "b < length ps0" and ab: "a \<noteq> b"
  shows "sameBodies ps0 (fst (collidePair a b ps e)) \<and>
         (\<forall>x<length ps0.
            deaths (fst (collidePair a b ps e) ! x) =
              deaths (ps ! x) +
              (if (x = b \<and> damages (ps0 ! a) (ps0 ! b)) \<or> (x = a \<and> damages (ps0 ! b) (ps0 ! a)) then 1 else 0) \<and>
            kills (fst (collidePair a b ps e) ! x) =
              kills (ps ! x) +
              (if (x = a \<and> damages (ps0 ! a) (ps0 ! b)) \<or> (x = b \<and> damages (ps0 ! b) (ps0 ! a)) then 1 else 0) \<and>
            isAlive (fst (collidePair a b ps e) ! x) =
              (isAlive (ps ! x) \<and>
               \<not> ((x = b \<and> damages (ps0 ! a) (ps0 ! b)) \<or> (x = a \<and> damages (ps0 ! b) (ps0 ! a)))))"
proof -
  from sb have l: "length ps = length ps0" by (simp add: sameBodies_def)
  have dab: "damages (ps ! a) (ps ! b) = damages (ps0 ! a) (ps0 ! b)"
    and dba: "damages (ps ! b) (ps ! a) = damages (ps0 ! b) (ps0 ! a)"
    using sameBodies_damages [OF sb] a b by simp_all
  consider (ab) "damages (ps0 ! a) (ps0 ! b)" | (ba) "damages (ps0 ! b) (ps0 ! a)"
    | (none) "\<not> damages (ps0 ! a) (ps0 ! b)" "\<not> damages (ps0 ! b) (ps0 ! a)" by blast
  then show ?thesis
  proof cases
    case ab
    then have nba: "\<not> damages (ps0 ! b) (ps0 ! a)" by (rule damages_exclusive)
    have c: "collidePair a b ps e =
        (ps[a := (ps ! a)\<lparr>kills := kills (ps ! a) + 1,
                           score := score (ps ! a) + (100 + level (ps ! b) * 20)\<rparr>,
            b := fst (die (ps ! b) e)], snd (die (ps ! b) e))"
      using ab by (simp add: collidePair_cases dab)
    show ?thesis
      unfolding c using sb a b \<open>a \<noteq> b\<close> ab nba l
      by (simp add: sameBodies_def die_fields nth_list_update)
  next
    case ba
    then have nab: "\<not> damages (ps0 ! a) (ps0 ! b)" by (rule damages_exclusive)
    have c: "collidePair a b ps e =
        (ps[b := (ps ! b)\<lparr>kills := kills (ps ! b) + 1,
                           score := score (ps ! b) + (100 + level (ps ! a) * 20)\<rparr>,
            a := fst (die (ps ! a) e)], snd (die (ps ! a) e))"
      using ba nab by (simp add: collidePair_cases dab dba)
    show ?thesis
      unfolding c using sb a b \<open>a \<noteq> b\<close> ba nab l
      by (simp add: sameBodies_def die_fields nth_list_update)
  next
    case none
    then have c: "collidePair a b ps e = (ps, e)" by (simp add: collidePair_cases dab dba)
    show ?thesis unfolding c using sb none by simp
  qed
qed


lemma pvpInner_effect:
  assumes "sameBodies ps0 ps" and "a < length ps0" and "\<forall>b\<in>set bs. b < length ps0 \<and> b \<noteq> a"
  shows "sameBodies ps0 (fst (pvpInner a bs ps e)) \<and>
         (\<forall>x<length ps0.
            deaths (fst (pvpInner a bs ps e) ! x) =
              deaths (ps ! x) +
              int (length (filter (\<lambda>b. (x = b \<and> damages (ps0 ! a) (ps0 ! b)) \<or>
                                        (x = a \<and> damages (ps0 ! b) (ps0 ! a))) bs)) \<and>
            kills (fst (pvpInner a bs ps e) ! x) =
              kills (ps ! x) +
              int (length (filter (\<lambda>b. (x = a \<and> damages (ps0 ! a) (ps0 ! b)) \<or>
                                        (x = b \<and> damages (ps0 ! b) (ps0 ! a))) bs)) \<and>
            isAlive (fst (pvpInner a bs ps e) ! x) =
              (isAlive (ps ! x) \<and>
               filter (\<lambda>b. (x = b \<and> damages (ps0 ! a) (ps0 ! b)) \<or>
                            (x = a \<and> damages (ps0 ! b) (ps0 ! a))) bs = []))"
  using assms
proof (induction bs arbitrary: ps e)
  case Nil
  then show ?case by simp
next
  case (Cons b bs)
  obtain ps1 e1 where c: "collidePair a b ps e = (ps1, e1)" by (cases "collidePair a b ps e")
  from Cons.prems(3) have b: "b < length ps0" "a \<noteq> b" and rest: "\<forall>b\<in>set bs. b < length ps0 \<and> b \<noteq> a"
    by auto
  from collidePair_effect [OF Cons.prems(1,2) b, of e] c
  have sb1: "sameBodies ps0 ps1"
    and f1: "\<forall>x<length ps0.
            deaths (ps1 ! x) =
              deaths (ps ! x) +
              (if (x = b \<and> damages (ps0 ! a) (ps0 ! b)) \<or> (x = a \<and> damages (ps0 ! b) (ps0 ! a)) then 1 else 0) \<and>
            kills (ps1 ! x) =
              kills (ps ! x) +
              (if (x = a \<and> damages (ps0 ! a) (ps0 ! b)) \<or> (x = b \<and> damages (ps0 ! b) (ps0 ! a)) then 1 else 0) \<and>
            isAlive (ps1 ! x) =
              (isAlive (ps ! x) \<and>
               \<not> ((x = b \<and> damages (ps0 ! a) (ps0 ! b)) \<or> (x = a \<and> damages (ps0 ! b) (ps0 ! a))))"
    by simp_all
  note ih = Cons.IH [OF sb1 Cons.prems(2) rest, of e1]
  have p: "pvpInner a (b # bs) ps e = pvpInner a bs ps1 e1" by (simp add: c)
  show ?case
  proof (intro conjI allI impI)
    show "sameBodies ps0 (fst (pvpInner a (b # bs) ps e))" unfolding p using ih by blast
  next
    fix x assume x: "x < length ps0"
    from ih x have
      "deaths (fst (pvpInner a bs ps1 e1) ! x) =
              deaths (ps1 ! x) +
              int (length (filter (\<lambda>b. (x = b \<and> damages (ps0 ! a) (ps0 ! b)) \<or>
                                        (x = a \<and> damages (ps0 ! b) (ps0 ! a))) bs))" by blast
    with f1 x show "deaths (fst (pvpInner a (b # bs) ps e) ! x) =
              deaths (ps ! x) +
              int (length (filter (\<lambda>b. (x = b \<and> damages (ps0 ! a) (ps0 ! b)) \<or>
                                        (x = a \<and> damages (ps0 ! b) (ps0 ! a))) (b # bs)))"
      unfolding p by simp
  next
    fix x assume x: "x < length ps0"
    from ih x have
      "kills (fst (pvpInner a bs ps1 e1) ! x) =
              kills (ps1 ! x) +
              int (length (filter (\<lambda>b. (x = a \<and> damages (ps0 ! a) (ps0 ! b)) \<or>
                                        (x = b \<and> damages (ps0 ! b) (ps0 ! a))) bs))" by blast
    with f1 x show "kills (fst (pvpInner a (b # bs) ps e) ! x) =
              kills (ps ! x) +
              int (length (filter (\<lambda>b. (x = a \<and> damages (ps0 ! a) (ps0 ! b)) \<or>
                                        (x = b \<and> damages (ps0 ! b) (ps0 ! a))) (b # bs)))"
      unfolding p by simp
  next
    fix x assume x: "x < length ps0"
    from ih x have
      "isAlive (fst (pvpInner a bs ps1 e1) ! x) =
              (isAlive (ps1 ! x) \<and>
               filter (\<lambda>b. (x = b \<and> damages (ps0 ! a) (ps0 ! b)) \<or>
                            (x = a \<and> damages (ps0 ! b) (ps0 ! a))) bs = [])" by blast
    with f1 x show "isAlive (fst (pvpInner a (b # bs) ps e) ! x) =
              (isAlive (ps ! x) \<and>
               filter (\<lambda>b. (x = b \<and> damages (ps0 ! a) (ps0 ! b)) \<or>
                            (x = a \<and> damages (ps0 ! b) (ps0 ! a))) (b # bs) = [])"
      unfolding p by simp
  qed
qed

lemma filter_eq_distinct:
  assumes "distinct bs"
  shows "filter (\<lambda>b. x = b \<and> P b) bs = (if x \<in> set bs \<and> P x then [x] else [])"
  using assms by (induction bs) auto

lemma filter_pair_count:
  assumes "distinct bs" and "a \<notin> set bs"
  shows "filter (\<lambda>b. (x = b \<and> P b) \<or> (x = a \<and> Q b)) bs
           = (if x = a then filter Q bs else if x \<in> set bs \<and> P x then [x] else [])"
proof (cases "x = a")
  case True
  with assms(2) have "filter (\<lambda>b. (x = b \<and> P b) \<or> (x = a \<and> Q b)) bs = filter Q bs"
    by (intro filter_cong) auto
  with True show ?thesis by simp
next
  case False
  then have "filter (\<lambda>b. (x = b \<and> P b) \<or> (x = a \<and> Q b)) bs = filter (\<lambda>b. x = b \<and> P b) bs"
    by (intro filter_cong) auto
  with False filter_eq_distinct [OF assms(1), of x P] show ?thesis by simp
qed


lemma pvpOuter_effect:
  assumes "sameBodies ps0 ps" and "distinct as" and "\<forall>a\<in>set as. a < length ps0"
  shows "sameBodies ps0 (fst (pvpOuter as ps e)) \<and>
         (\<forall>x<length ps0.
            deaths (fst (pvpOuter as ps e) ! x) =
              deaths (ps ! x) +
              (if x \<in> set as then int (length (filter (\<lambda>u. damages (ps0 ! u) (ps0 ! x)) as)) else 0) \<and>
            kills (fst (pvpOuter as ps e) ! x) =
              kills (ps ! x) +
              (if x \<in> set as then int (length (filter (\<lambda>v. damages (ps0 ! x) (ps0 ! v)) as)) else 0) \<and>
            isAlive (fst (pvpOuter as ps e) ! x) =
              (isAlive (ps ! x) \<and> \<not> (x \<in> set as \<and> (\<exists>u\<in>set as. damages (ps0 ! u) (ps0 ! x)))))"
  using assms
proof (induction as arbitrary: ps e)
  case Nil
  then show ?case by simp
next
  case (Cons a as)
  let ?D = "\<lambda>u v. damages (ps0 ! u) (ps0 ! v)"
  obtain ps1 e1 where c: "pvpInner a as ps e = (ps1, e1)" by (cases "pvpInner a as ps e")
  from Cons.prems(2) have d: "distinct as" and na: "a \<notin> set as" by simp_all
  from Cons.prems(3) have a: "a < length ps0" and bd: "\<forall>a\<in>set as. a < length ps0" by simp_all
  from bd na have bs: "\<forall>b\<in>set as. b < length ps0 \<and> b \<noteq> a" by auto
  have fd: "filter (\<lambda>b. (x = b \<and> ?D a b) \<or> (x = a \<and> ?D b a)) as
              = (if x = a then filter (\<lambda>b. ?D b a) as else if x \<in> set as \<and> ?D a x then [x] else [])" for x
    using d na by (rule filter_pair_count)
  have "filter (\<lambda>b. (x = a \<and> ?D a b) \<or> (x = b \<and> ?D b a)) as
          = filter (\<lambda>b. (x = b \<and> ?D b a) \<or> (x = a \<and> ?D a b)) as" for x
    by (intro filter_cong) auto
  then have fk: "filter (\<lambda>b. (x = a \<and> ?D a b) \<or> (x = b \<and> ?D b a)) as
              = (if x = a then filter (\<lambda>b. ?D a b) as else if x \<in> set as \<and> ?D x a then [x] else [])" for x
    using filter_pair_count [OF d na, of x "\<lambda>b. ?D b a" "\<lambda>b. ?D a b"] by simp
  have both: "sameBodies ps0 ps1 \<and> (\<forall>x<length ps0.
            deaths (ps1 ! x) = deaths (ps ! x) +
              int (length (if x = a then filter (\<lambda>b. ?D b a) as else if x \<in> set as \<and> ?D a x then [x] else [])) \<and>
            kills (ps1 ! x) = kills (ps ! x) +
              int (length (if x = a then filter (\<lambda>b. ?D a b) as else if x \<in> set as \<and> ?D x a then [x] else [])) \<and>
            isAlive (ps1 ! x) =
              (isAlive (ps ! x) \<and>
               (if x = a then filter (\<lambda>b. ?D b a) as else if x \<in> set as \<and> ?D a x then [x] else []) = []))"
    using pvpInner_effect [OF Cons.prems(1) a bs, of e] unfolding c fst_conv fd fk .
  then have sb1: "sameBodies ps0 ps1" by (rule conjunct1)
  from both have f1: "\<forall>x<length ps0.
            deaths (ps1 ! x) = deaths (ps ! x) +
              int (length (if x = a then filter (\<lambda>b. ?D b a) as else if x \<in> set as \<and> ?D a x then [x] else [])) \<and>
            kills (ps1 ! x) = kills (ps ! x) +
              int (length (if x = a then filter (\<lambda>b. ?D a b) as else if x \<in> set as \<and> ?D x a then [x] else [])) \<and>
            isAlive (ps1 ! x) =
              (isAlive (ps ! x) \<and>
               (if x = a then filter (\<lambda>b. ?D b a) as else if x \<in> set as \<and> ?D a x then [x] else []) = [])" by (rule conjunct2)
  note ih = Cons.IH [OF sb1 d bd, of e1]
  have p: "pvpOuter (a # as) ps e = pvpOuter as ps1 e1" by (simp add: c)
  have nd: "\<not> ?D a a" by (rule not_damages_self)
  show ?case
  proof (intro conjI allI impI)
    show "sameBodies ps0 (fst (pvpOuter (a # as) ps e))" unfolding p using ih by blast
  next
    fix x assume x: "x < length ps0"
    from ih x have "deaths (fst (pvpOuter as ps1 e1) ! x) =
              deaths (ps1 ! x) +
              (if x \<in> set as then int (length (filter (\<lambda>u. ?D u x) as)) else 0)" by blast
    moreover from f1 x have "deaths (ps1 ! x) = deaths (ps ! x) +
              int (length (if x = a then filter (\<lambda>b. ?D b a) as else if x \<in> set as \<and> ?D a x then [x] else []))"
      by blast
    ultimately show "deaths (fst (pvpOuter (a # as) ps e) ! x) =
              deaths (ps ! x) +
              (if x \<in> set (a # as) then int (length (filter (\<lambda>u. ?D u x) (a # as))) else 0)"
      unfolding p using na nd by (cases "x = a") auto
  next
    fix x assume x: "x < length ps0"
    from ih x have "kills (fst (pvpOuter as ps1 e1) ! x) =
              kills (ps1 ! x) +
              (if x \<in> set as then int (length (filter (\<lambda>v. ?D x v) as)) else 0)" by blast
    moreover from f1 x have "kills (ps1 ! x) = kills (ps ! x) +
              int (length (if x = a then filter (\<lambda>b. ?D a b) as else if x \<in> set as \<and> ?D x a then [x] else []))"
      by blast
    ultimately show "kills (fst (pvpOuter (a # as) ps e) ! x) =
              kills (ps ! x) +
              (if x \<in> set (a # as) then int (length (filter (\<lambda>v. ?D x v) (a # as))) else 0)"
      unfolding p using na nd by (cases "x = a") auto
  next
    fix x assume x: "x < length ps0"
    from ih x have "isAlive (fst (pvpOuter as ps1 e1) ! x) =
              (isAlive (ps1 ! x) \<and> \<not> (x \<in> set as \<and> (\<exists>u\<in>set as. ?D u x)))" by blast
    moreover from f1 x have "isAlive (ps1 ! x) =
              (isAlive (ps ! x) \<and>
               (if x = a then filter (\<lambda>b. ?D b a) as else if x \<in> set as \<and> ?D a x then [x] else []) = [])"
      by blast
    ultimately show "isAlive (fst (pvpOuter (a # as) ps e) ! x) =
              (isAlive (ps ! x) \<and> \<not> (x \<in> set (a # as) \<and> (\<exists>u\<in>set (a # as). ?D u x)))"
      unfolding p using na nd by (cases "x = a") (auto simp add: filter_empty_conv)
  qed
qed


lemma eatFoods_frame:
  assumes "a < length ps"
  shows "length (fst (fst (eatFoods a n opts ps fs e))) = length ps \<and>
         (\<forall>x<length ps.
            deaths (fst (fst (eatFoods a n opts ps fs e)) ! x) = deaths (ps ! x) \<and>
            kills (fst (fst (eatFoods a n opts ps fs e)) ! x) = kills (ps ! x) \<and>
            isAlive (fst (fst (eatFoods a n opts ps fs e)) ! x) = isAlive (ps ! x))"
  using assms
proof (induction n arbitrary: ps fs e)
  case 0
  then show ?case by simp
next
  case (Suc i)
  let ?pl = "ps ! a"
  let ?ps1 = "ps[a := ?pl\<lparr>score := score ?pl + food_value (fs ! i) * 10\<rparr>]"
  have l1: "a < length ?ps1" using Suc.prems by simp
  have same: "length ?ps1 = length ps"
    "\<forall>x<length ps. deaths (?ps1 ! x) = deaths (ps ! x) \<and> kills (?ps1 ! x) = kills (ps ! x) \<and>
                    isAlive (?ps1 ! x) = isAlive (ps ! x)"
    using Suc.prems by (simp_all add: nth_list_update)
  note ih1 = Suc.IH [OF l1] and ih0 = Suc.IH [OF Suc.prems]
  show ?case
    using ih1 ih0 same by (simp add: Let_def split_def)
qed

lemma foodSweep_frame:
  assumes "\<forall>b\<in>set as. b < length ps"
  shows "length (fst (fst (foodSweep as opts ps fs e))) = length ps \<and>
         (\<forall>x<length ps.
            deaths (fst (fst (foodSweep as opts ps fs e)) ! x) = deaths (ps ! x) \<and>
            kills (fst (fst (foodSweep as opts ps fs e)) ! x) = kills (ps ! x) \<and>
            isAlive (fst (fst (foodSweep as opts ps fs e)) ! x) = isAlive (ps ! x))"
  using assms
proof (induction as arbitrary: ps fs e)
  case Nil
  then show ?case by simp
next
  case (Cons a as)
  obtain ps1 fs1 e1 where c: "eatFoods a (length fs) opts ps fs e = ((ps1, fs1), e1)"
    by (cases "eatFoods a (length fs) opts ps fs e") auto
  from Cons.prems have a: "a < length ps" by simp
  from eatFoods_frame [OF a, of "length fs" opts fs e] c
  have l1: "length ps1 = length ps"
    and f1: "\<forall>x<length ps. deaths (ps1 ! x) = deaths (ps ! x) \<and> kills (ps1 ! x) = kills (ps ! x) \<and>
                    isAlive (ps1 ! x) = isAlive (ps ! x)"
    by simp_all
  from Cons.prems l1 have "\<forall>b\<in>set as. b < length ps1" by simp
  from Cons.IH [OF this, of fs1 e1] l1 f1 c show ?case by simp
qed

lemma aliveIndices_set: "x \<in> set (aliveIndices ps) \<longleftrightarrow> x < length ps \<and> isAlive (ps ! x)"
  by (auto simp add: aliveIndices_def)

lemma aliveIndices_distinct: "distinct (aliveIndices ps)"
  by (simp add: aliveIndices_def)

lemma checkCollisions_players:
  "\<exists>ps1 e1 ps2 fs2 e2.
     pvpOuter (aliveIndices (map snd (players room))) (map snd (players room)) e = (ps1, e1) \<and>
     foodSweep (aliveIndices (map snd (players room))) (options room) ps1 (foods room) e1 = ((ps2, fs2), e2) \<and>
     players (fst (checkCollisions room e)) = zip (map fst (players room)) ps2"
proof -
  let ?ps = "map snd (players room)"
  obtain ps1 e1 where a: "pvpOuter (aliveIndices ?ps) ?ps e = (ps1, e1)"
    by (cases "pvpOuter (aliveIndices ?ps) ?ps e")
  obtain ps2 fs2 e2 where b: "foodSweep (aliveIndices ?ps) (options room) ps1 (foods room) e1 = ((ps2, fs2), e2)"
    by (cases "foodSweep (aliveIndices ?ps) (options room) ps1 (foods room) e1") auto
  from a b have "players (fst (checkCollisions room e)) = zip (map fst (players room)) ps2"
    by (simp add: checkCollisions_def Let_def)
  with a b show ?thesis by blast
qed

lemma player0_body:
  "isAlive player0 \<and> invincibleDur player0 = 0 \<and> deaths player0 = 0 \<and> kills player0 = 0"
  by (simp add: player0_def Player_new_def randomColor_def Math_random_def Date_now_def Let_def)

lemma sized_damages:
  "damages (sized k sz) (sized k' sz') \<longleftrightarrow> real_of_int (sz + sz') * 0.6 > 0 \<and> sz - sz' > 10"
  using player0_body by (auto simp add: damages_def beats_def sized_def Vec2_distance_def)


section \<open>The break point stays beyond the chain\<close>

text \<open>No call assigns \<open>breakPoint\<close> or changes the number of parts: the property of the
  constructor's player is kept by every call on a room, and no call raises.\<close>

lemma Player_new_unbroken: "unbrokenChain (fst (Player_new ident sock nm e))"
  by (simp add: unbrokenChain_def Player_new_def randomColor_def Math_random_def Date_now_def Let_def
      initializeParts_def)

lemma spawn_unbroken: "unbrokenChain p \<Longrightarrow> unbrokenChain (fst (spawn room p e))"
  using spawn_fields [of room p e] by (simp add: unbrokenChain_def)

lemma setTarget_unbroken: "unbrokenChain p \<Longrightarrow> unbrokenChain (setTarget tx ty rs p)"
  by (simp add: unbrokenChain_def setTarget_def split: option.split)

lemma useDash_unbroken: "unbrokenChain p \<Longrightarrow> unbrokenChain (snd (fst (useDash p e)))"
  by (simp add: unbrokenChain_def useDash_def validateDash_eq Date_now_def Let_def)

lemma die_unbroken: "unbrokenChain p \<Longrightarrow> unbrokenChain (fst (die p e))"
  by (simp add: unbrokenChain_def die_def Date_now_def)

lemma takeDamage_unbroken:
  assumes "unbrokenChain p" and "\<And>a. att = Other a \<Longrightarrow> unbrokenChain a"
  shows "unbrokenChain (fst (snd (fst (takeDamage p amount att e)))) \<and>
         (\<forall>a1. snd (snd (fst (takeDamage p amount att e))) = Other a1 \<longrightarrow> unbrokenChain a1)"
  using assms
  by (cases att) (auto simp add: takeDamage_def die_def Date_now_def unbrokenChain_def)

lemma update_unbroken:
  assumes "unbrokenChain p"
  shows "\<exists>p1 e1. update dt rs p e = (Inr p1, e1) \<and> unbrokenChain p1"
proof (cases "isAlive p")
  case True
  from assms have "parts p \<noteq> []" by (auto simp add: unbrokenChain_def)
  from update_alive [OF True this, of dt rs e] obtain p1 where
    "update dt rs p e = (Inr p1, e)" "length (parts p1) = length (parts p)"
    "breakPoint p1 = breakPoint p"
    by blast
  moreover from this(2-3) assms have "unbrokenChain p1"
    by (auto simp add: unbrokenChain_def)
  ultimately show ?thesis by blast
next
  case False
  show ?thesis
  proof (cases "clock e (clockReads e) > respawnTime p \<and> lookupRoom rs p \<noteq> None")
    case True
    then obtain room where r: "lookupRoom rs p = Some room" by auto
    obtain p1 e2 where s: "spawn room p (e\<lparr>clockReads := Suc (clockReads e)\<rparr>) = (p1, e2)"
      by (cases "spawn room p (e\<lparr>clockReads := Suc (clockReads e)\<rparr>)")
    with spawn_unbroken [OF assms, of room "e\<lparr>clockReads := Suc (clockReads e)\<rparr>"]
    have "unbrokenChain p1" by simp
    moreover have "update dt rs p e = (Inr p1, e2)"
      using False True r s by (simp add: update_def Date_now_def)
    ultimately show ?thesis by blast
  next
    case False
    with \<open>\<not> isAlive p\<close> have "update dt rs p e = (Inr p, e\<lparr>clockReads := Suc (clockReads e)\<rparr>)"
      by (auto simp add: update_def Date_now_def split: option.split)
    with assms show ?thesis by blast
  qed
qed


lemma damageAt_unbroken:
  assumes "\<forall>p\<in>set ps. unbrokenChain p" and "v < length ps" and "a < length ps"
  shows "(\<forall>p\<in>set (fst (damageAt v a ps e)). unbrokenChain p) \<and>
         length (fst (damageAt v a ps e)) = length ps"
proof -
  obtain r v1 att1 e1 where t: "takeDamage (ps ! v) collisionDamage (Other (ps ! a)) e = ((r, v1, att1), e1)"
    by (metis prod.exhaust)
  from assms have okv: "unbrokenChain (ps ! v)" and oka: "unbrokenChain (ps ! a)" by simp_all
  from takeDamage_unbroken [of "ps ! v" "Other (ps ! a)" collisionDamage e] okv oka t
  have v1: "unbrokenChain v1" and a1: "\<forall>a1. att1 = Other a1 \<longrightarrow> unbrokenChain a1" by simp_all
  show ?thesis
  proof (cases att1)
    case (Other a1)
    with a1 have "unbrokenChain a1" by simp
    with assms(1) v1 have "\<forall>p\<in>set (ps[a := a1, v := v1]). unbrokenChain p"
      by (intro list_update_ok)
    with Other t show ?thesis by (simp add: damageAt_def)
  next
    case Null
    from assms(1) v1 have "\<forall>p\<in>set (ps[v := v1]). unbrokenChain p" by (intro list_update_ok)
    with Null t show ?thesis by (simp add: damageAt_def)
  next
    case This
    from assms(1) v1 have "\<forall>p\<in>set (ps[v := v1]). unbrokenChain p" by (intro list_update_ok)
    with This t show ?thesis by (simp add: damageAt_def)
  qed
qed

lemma collidePair_unbroken:
  assumes "\<forall>p\<in>set ps. unbrokenChain p" and "a < length ps" and "b < length ps"
  shows "(\<forall>p\<in>set (fst (collidePair a b ps e)). unbrokenChain p) \<and>
         length (fst (collidePair a b ps e)) = length ps"
  using damageAt_unbroken [OF assms(1) assms(3) assms(2), of e] damageAt_unbroken [OF assms(1) assms(2) assms(3), of e] assms(1)
  by (simp add: collidePair_def Let_def)

lemma pvpInner_unbroken:
  assumes "\<forall>p\<in>set ps. unbrokenChain p" and "a < length ps" and "\<forall>b\<in>set bs. b < length ps"
  shows "(\<forall>p\<in>set (fst (pvpInner a bs ps e)). unbrokenChain p) \<and>
         length (fst (pvpInner a bs ps e)) = length ps"
  using assms
proof (induction bs arbitrary: ps e)
  case Nil
  then show ?case by simp
next
  case (Cons b bs)
  obtain ps1 e1 where c: "collidePair a b ps e = (ps1, e1)" by (cases "collidePair a b ps e")
  from collidePair_unbroken [OF Cons.prems(1,2), of b e] Cons.prems(3) c
  have ok1: "\<forall>p\<in>set ps1. unbrokenChain p" and l1: "length ps1 = length ps" by simp_all
  from Cons.IH [OF ok1, of e1] l1 Cons.prems(2,3) c show ?case by simp
qed

lemma pvpOuter_unbroken:
  assumes "\<forall>p\<in>set ps. unbrokenChain p" and "\<forall>b\<in>set as. b < length ps"
  shows "(\<forall>p\<in>set (fst (pvpOuter as ps e)). unbrokenChain p) \<and>
         length (fst (pvpOuter as ps e)) = length ps"
  using assms
proof (induction as arbitrary: ps e)
  case Nil
  then show ?case by simp
next
  case (Cons a as)
  obtain ps1 e1 where c: "pvpInner a as ps e = (ps1, e1)" by (cases "pvpInner a as ps e")
  from pvpInner_unbroken [OF Cons.prems(1), of a as e] Cons.prems(2) c
  have ok1: "\<forall>p\<in>set ps1. unbrokenChain p" and l1: "length ps1 = length ps" by simp_all
  from Cons.IH [OF ok1, of e1] l1 Cons.prems(2) c show ?case by simp
qed

lemma eatFoods_unbroken:
  assumes "\<forall>p\<in>set ps. unbrokenChain p" and "a < length ps"
  shows "(\<forall>p\<in>set (fst (fst (eatFoods a n opts ps fs e))). unbrokenChain p) \<and>
         length (fst (fst (eatFoods a n opts ps fs e))) = length ps"
  using assms
proof (induction n arbitrary: ps fs e)
  case 0
  then show ?case by simp
next
  case (Suc i)
  let ?pl = "ps ! a"
  let ?ps1 = "ps[a := ?pl\<lparr>score := score ?pl + food_value (fs ! i) * 10\<rparr>]"
  from Suc.prems have "unbrokenChain ?pl" by simp
  then have "unbrokenChain (?pl\<lparr>score := score ?pl + food_value (fs ! i) * 10\<rparr>)"
    by (simp add: unbrokenChain_def)
  with Suc.prems(1) have ok1: "\<forall>p\<in>set ?ps1. unbrokenChain p" by (intro list_update_ok)
  have l1: "a < length ?ps1" using Suc.prems(2) by simp
  note ih1 = Suc.IH [OF ok1 l1] and ih0 = Suc.IH [OF Suc.prems]
  show ?case
    using ih1 ih0 by (simp add: Let_def split_def)
qed

lemma foodSweep_unbroken:
  assumes "\<forall>p\<in>set ps. unbrokenChain p" and "\<forall>b\<in>set as. b < length ps"
  shows "(\<forall>p\<in>set (fst (fst (foodSweep as opts ps fs e))). unbrokenChain p) \<and>
         length (fst (fst (foodSweep as opts ps fs e))) = length ps"
  using assms
proof (induction as arbitrary: ps fs e)
  case Nil
  then show ?case by simp
next
  case (Cons a as)
  obtain ps1 fs1 e1 where c: "eatFoods a (length fs) opts ps fs e = ((ps1, fs1), e1)"
    by (metis prod.exhaust)
  from eatFoods_unbroken [OF Cons.prems(1), of a "length fs" opts fs e] Cons.prems(2) c
  have ok1: "\<forall>p\<in>set ps1. unbrokenChain p" and l1: "length ps1 = length ps" by simp_all
  from Cons.IH [OF ok1, of fs1 e1] l1 Cons.prems(2) c show ?case by simp
qed

lemma checkCollisions_unbroken:
  assumes "allPlayersUnbroken room"
  shows "allPlayersUnbroken (fst (checkCollisions room e))"
proof -
  let ?ps = "map snd (players room)"
  let ?al = "aliveIndices ?ps"
  obtain ps1 e1 where a: "pvpOuter ?al ?ps e = (ps1, e1)" by (cases "pvpOuter ?al ?ps e")
  obtain ps2 fs2 e2 where b: "foodSweep ?al (options room) ps1 (foods room) e1 = ((ps2, fs2), e2)"
    by (metis prod.exhaust)
  from assms have ok: "\<forall>p\<in>set ?ps. unbrokenChain p" by (simp add: allPlayersUnbroken_def)
  from pvpOuter_unbroken [OF ok aliveIndices_bound, of e] a
  have ok1: "\<forall>p\<in>set ps1. unbrokenChain p" and l1: "length ps1 = length ?ps" by simp_all
  from aliveIndices_bound [of ?ps] l1 have "\<forall>b\<in>set ?al. b < length ps1" by simp
  from foodSweep_unbroken [OF ok1 this, of "options room" "foods room" e1] b
  have ok2: "\<forall>p\<in>set ps2. unbrokenChain p" and l2: "length ps2 = length ps1" by simp_all
  have "map snd (zip (map fst (players room)) ps2) = ps2" using l1 l2 by simp
  with ok2 have "allPlayersUnbroken (room\<lparr>players := zip (map fst (players room)) ps2, foods := fs2\<rparr>)"
    by (simp add: allPlayersUnbroken_def)
  then show ?thesis using a b by (simp add: checkCollisions_def Let_def)
qed

lemma updatePlayers_unbroken:
  assumes "\<forall>p\<in>set (map snd kps). unbrokenChain p"
  shows "\<exists>kps1 e1. updatePlayers dt rs kps e = (Inr kps1, e1) \<and>
           (\<forall>p\<in>set (map snd kps1). unbrokenChain p)"
  using assms
proof (induction kps arbitrary: e)
  case Nil
  then show ?case by simp
next
  case (Cons kp kps)
  obtain k p where kp: "kp = (k, p)" by (cases kp)
  with Cons.prems have "unbrokenChain p" by simp
  from update_unbroken [OF this, of dt rs e] obtain p1 e1 where
    u: "update dt rs p e = (Inr p1, e1)" and ok1: "unbrokenChain p1" by blast
  from Cons.prems have "\<forall>p\<in>set (map snd kps). unbrokenChain p" by simp
  from Cons.IH [OF this, of e1] obtain kps1 e2 where
    r: "updatePlayers dt rs kps e1 = (Inr kps1, e2)" and ok2: "\<forall>p\<in>set (map snd kps1). unbrokenChain p"
    by blast
  from u r ok1 ok2 show ?case by (simp add: kp)
qed

lemma GameRoom_update_unbroken:
  assumes "allPlayersUnbroken room"
  shows "\<exists>room1 e1. GameRoom_update dt rs room e = (Inr room1, e1) \<and> allPlayersUnbroken room1"
proof -
  from assms have "\<forall>p\<in>set (map snd (players room)). unbrokenChain p" by (simp add: allPlayersUnbroken_def)
  from updatePlayers_unbroken [OF this, of dt rs e] obtain kps e1 where
    u: "updatePlayers dt rs (players room) e = (Inr kps, e1)"
    and ok: "\<forall>p\<in>set (map snd kps). unbrokenChain p" by blast
  obtain room1 e2 where c: "checkCollisions (room\<lparr>players := kps\<rparr>) e1 = (room1, e2)"
    by (cases "checkCollisions (room\<lparr>players := kps\<rparr>) e1")
  from ok have "allPlayersUnbroken (room\<lparr>players := kps\<rparr>)" by (simp add: allPlayersUnbroken_def)
  from checkCollisions_unbroken [OF this, of e1] c have ok1: "allPlayersUnbroken room1" by simp
  then have "allPlayersUnbroken (room1\<lparr>foods := fs\<rparr>)" for fs by (simp add: allPlayersUnbroken_def)
  with ok1 u c show ?thesis
    by (simp add: GameRoom_update_def Let_def split_def)
qed


lemma replaceAt_unbroken:
  assumes "\<forall>p\<in>set (map snd kps). unbrokenChain p" and "unbrokenChain q"
  shows "\<forall>p\<in>set (map snd (replaceAt k q kps)). unbrokenChain p"
  using assms by (auto simp add: replaceAt_def split: if_splits)

lemma Map_set_unbroken:
  assumes "\<forall>p\<in>set (map snd kps). unbrokenChain p" and "unbrokenChain q"
  shows "\<forall>p\<in>set (map snd (Map_set k q kps)). unbrokenChain p"
  using assms by (auto simp add: Map_set_def split: if_splits)

lemma map_of_unbroken:
  assumes "allPlayersUnbroken room" and "map_of (players room) k = Some p"
  shows "unbrokenChain p"
  using assms map_of_SomeD [of "players room" k p] by (force simp add: allPlayersUnbroken_def)

lemma addPlayer_unbroken:
  assumes "allPlayersUnbroken room" and "unbrokenChain p"
  shows "allPlayersUnbroken (fst (addPlayer p room e))"
proof -
  from assms(2) have "unbrokenChain (p\<lparr>currentRoom := Some (room_id room)\<rparr>)"
    by (simp add: unbrokenChain_def)
  then have "unbrokenChain (fst (spawn (options room) (p\<lparr>currentRoom := Some (room_id room)\<rparr>) e))"
    by (rule spawn_unbroken)
  moreover from assms(1) have "\<forall>p\<in>set (map snd (players room)). unbrokenChain p"
    by (simp add: allPlayersUnbroken_def)
  ultimately have "\<forall>q\<in>set (map snd (Map_set (player_id p)
        (fst (spawn (options room) (p\<lparr>currentRoom := Some (room_id room)\<rparr>) e)) (players room))). unbrokenChain q"
    by (intro Map_set_unbroken)
  then show ?thesis
    by (simp add: addPlayer_def split_def Let_def allPlayersUnbroken_def)
qed

lemma allPlayersUnbroken_replaceAt:
  assumes "allPlayersUnbroken room" and "unbrokenChain q"
  shows "allPlayersUnbroken (room\<lparr>players := replaceAt k q (players room)\<rparr>)"
proof -
  from assms(1) have "\<forall>p\<in>set (map snd (players room)). unbrokenChain p"
    by (simp add: allPlayersUnbroken_def)
  then have "\<forall>p\<in>set (map snd (replaceAt k q (players room))). unbrokenChain p"
    using assms(2) by (rule replaceAt_unbroken)
  then show ?thesis by (simp add: allPlayersUnbroken_def)
qed

lemma step_unbroken:
  assumes "allPlayersUnbroken room"
  shows "\<exists>room1 e1. step rs c room e = (Inr room1, e1) \<and> allPlayersUnbroken room1"
proof (cases c)
  case (Tick dt)
  with GameRoom_update_unbroken [OF assms, of dt rs e] show ?thesis by (simp only: step_Tick)
next
  case (AddPlayer ident sock nm)
  from addPlayer_unbroken [OF assms Player_new_unbroken, of ident sock nm e "snd (Player_new ident sock nm e)"]
  show ?thesis unfolding AddPlayer step_AddPlayer by blast
next
  case (SetTarget k tx ty)
  show ?thesis
  proof (cases "map_of (players room) k")
    case None
    with assms show ?thesis unfolding SetTarget by (simp only: step_missing) blast
  next
    case (Some p)
    from map_of_unbroken [OF assms Some] have "unbrokenChain (setTarget tx ty rs p)" by (rule setTarget_unbroken)
    with assms have "allPlayersUnbroken (room\<lparr>players := replaceAt k (setTarget tx ty rs p) (players room)\<rparr>)"
      by (intro allPlayersUnbroken_replaceAt)
    then show ?thesis unfolding SetTarget step_SetTarget [OF Some] by blast
  qed
next
  case (UseDash k)
  show ?thesis
  proof (cases "map_of (players room) k")
    case None
    with assms show ?thesis unfolding UseDash by (simp only: step_missing) blast
  next
    case (Some p)
    from map_of_unbroken [OF assms Some] have "unbrokenChain (snd (fst (useDash p e)))" by (rule useDash_unbroken)
    with assms have "allPlayersUnbroken (room\<lparr>players := replaceAt k (snd (fst (useDash p e))) (players room)\<rparr>)"
      by (intro allPlayersUnbroken_replaceAt)
    then show ?thesis unfolding UseDash step_UseDash [OF Some] by blast
  qed
next
  case (TakeDamage k amount a)
  show ?thesis
  proof (cases "map_of (players room) k")
    case None
    with assms show ?thesis unfolding TakeDamage by (simp only: step_missing) blast
  next
    case (Some p)
    define att where "att = (case a of
                  None \<Rightarrow> Null
                | Some ka \<Rightarrow>
                    if ka = k then This
                    else (case map_of (players room) ka of None \<Rightarrow> Null | Some pa \<Rightarrow> Other pa))"
    have oka: "unbrokenChain pa" if "att = Other pa" for pa
    proof -
      from that obtain ka where "a = Some ka" "map_of (players room) ka = Some pa"
        by (auto simp add: att_def split: option.splits if_splits)
      then show ?thesis using map_of_unbroken [OF assms] by blast
    qed
    obtain r p1 att1 e1 where t: "takeDamage p amount att e = ((r, p1, att1), e1)"
      by (cases "takeDamage p amount att e") auto
    from takeDamage_unbroken [of p att amount e] map_of_unbroken [OF assms Some] oka t
    have p1: "unbrokenChain p1" and a1: "\<forall>pa1. att1 = Other pa1 \<longrightarrow> unbrokenChain pa1" by simp_all
    from assms have ok: "\<forall>p\<in>set (map snd (players room)). unbrokenChain p"
      by (simp add: allPlayersUnbroken_def)
    have ok1: "\<forall>p\<in>set (map snd (replaceAt k p1 (players room))). unbrokenChain p"
      using ok p1 by (rule replaceAt_unbroken)
    define kps2 where "kps2 = (case (a, att1) of
                         (Some ka, Other pa1) \<Rightarrow> replaceAt ka pa1 (replaceAt k p1 (players room))
                       | _ \<Rightarrow> replaceAt k p1 (players room))"
    have "\<forall>p\<in>set (map snd kps2). unbrokenChain p"
    proof (cases a)
      case None
      with ok1 show ?thesis by (simp add: kps2_def)
    next
      case (Some ka)
      show ?thesis
      proof (cases att1)
        case (Other pa1)
        with a1 have "unbrokenChain pa1" by simp
        from replaceAt_unbroken [OF ok1 this, of ka] Some Other show ?thesis by (simp add: kps2_def)
      next
        case Null
        with ok1 Some show ?thesis by (simp add: kps2_def)
      next
        case This
        with ok1 Some show ?thesis by (simp add: kps2_def)
      qed
    qed
    then have "allPlayersUnbroken (room\<lparr>players := kps2\<rparr>)" by (simp add: allPlayersUnbroken_def)
    moreover have "step rs c room e = (Inr (room\<lparr>players := kps2\<rparr>), e1)"
      unfolding TakeDamage kps2_def by (rule step_TakeDamage [OF Some att_def t])
    ultimately show ?thesis by blast
  qed
next
  case (Spawn k)
  show ?thesis
  proof (cases "map_of (players room) k")
    case None
    with assms show ?thesis unfolding Spawn by (simp only: step_missing) blast
  next
    case (Some p)
    from map_of_unbroken [OF assms Some] have "unbrokenChain (fst (spawn (options room) p e))" by (rule spawn_unbroken)
    with assms have "allPlayersUnbroken (room\<lparr>players := replaceAt k (fst (spawn (options room) p e)) (players room)\<rparr>)"
      by (intro allPlayersUnbroken_replaceAt)
    then show ?thesis unfolding Spawn step_Spawn [OF Some] by blast
  qed
qed


lemma run_unbroken:
  assumes "allPlayersUnbroken room"
  shows "\<exists>room1 e1. run rs cs room e = (Inr room1, e1) \<and> allPlayersUnbroken room1"
  using assms
proof (induction cs arbitrary: room e)
  case Nil
  then show ?case by simp
next
  case (Cons c cs)
  from step_unbroken [OF Cons.prems, of rs c e] obtain room1 e1 where
    s: "step rs c room e = (Inr room1, e1)" and ok: "allPlayersUnbroken room1" by blast
  from Cons.IH [OF ok, of e1] s show ?case by simp
qed


section \<open>Dash\<close>

text \<open>
  Claim C5. The clock is positive, as \<open>Date.now()\<close> is. If a call of \<open>useDash\<close> succeeds
  (which needs a charge of at least 1) and the next call reads the clock less than 100 ms
  after the time stamped by the first, then the second call returns false and leaves the
  player as the first call left it: the charge is one less than before the first call,
  and the velocity receives no second impulse.
\<close>

theorem useDash_spam:
  assumes clk: "\<forall>k. 0 < clock e k"
    and first: "useDash p e = ((True, p1), e1)"
    and soon: "clock e1 (clockReads e1) - lastDashTime p1 < 100"
  shows "1 \<le> curDash p \<and>
         fst (useDash p1 e1) = (False, p1) \<and>
         curDash (snd (fst (useDash p1 e1))) = curDash p - 1 \<and>
         vel (snd (fst (useDash p1 e1))) = vel p1"
proof -
  from useDash_True [OF first] have c: "0 < curDash p"
    and p1: "p1 = p\<lparr>curDash := curDash p - 1, lastDashTime := clock e (Suc (clockReads e)),
                vel := \<lparr>vec_x = vec_x (vel p) + cos (angle p) * dashPower,
                        vec_y = vec_y (vel p) + sin (angle p) * dashPower\<rparr>\<rparr>"
    and e1: "e1 = e\<lparr>clockReads := Suc (Suc (clockReads e))\<rparr>" by simp_all
  from clk have "0 < clock e (Suc (clockReads e))" by blast
  then have "lastDashTime p1 \<noteq> 0" by (simp add: p1)
  with soon have "fst (validateDash p1 e1) = False" by (simp add: validateDash_eq)
  then have "fst (useDash p1 e1) = (False, p1)"
    by (simp add: useDash_def split_def)
  moreover have "curDash p1 = curDash p - 1" by (simp add: p1)
  ultimately show ?thesis using c by simp
qed


theorem useDash_spam_witness:
  "fst (fst (useDash player0 env0)) = True \<and>
   fst (useDash (snd (fst (useDash player0 env0))) (snd (useDash player0 env0)))
     = (False, snd (fst (useDash player0 env0))) \<and>
   curDash player0 = 5 \<and> curDash (snd (fst (useDash player0 env0))) = 4"
proof -
  have u: "useDash player0 env0 = ((True, snd (fst (useDash player0 env0))), snd (useDash player0 env0))"
    by (simp add: useDash_def validateDash_eq Date_now_def player0_def Player_new_def randomColor_def
        Math_random_def Let_def env0_def)
  have s: "clock (snd (useDash player0 env0)) (clockReads (snd (useDash player0 env0)))
             - lastDashTime (snd (fst (useDash player0 env0))) < 100"
    by (simp add: useDash_def validateDash_eq Date_now_def player0_def Player_new_def randomColor_def
        Math_random_def Let_def env0_def)
  have k: "\<forall>k. 0 < clock env0 k" by (simp add: env0_def)
  have c: "curDash player0 = 5"
    by (simp add: player0_def Player_new_def randomColor_def Math_random_def Date_now_def Let_def)
  from useDash_spam [OF k u s]
  have "fst (useDash (snd (fst (useDash player0 env0))) (snd (useDash player0 env0)))
          = (False, snd (fst (useDash player0 env0)))"
    and "curDash (snd (fst (useDash (snd (fst (useDash player0 env0))) (snd (useDash player0 env0))))) = curDash player0 - 1"
    by blast+
  then have "curDash (snd (fst (useDash player0 env0))) = 4" using c by simp
  moreover have "fst (fst (useDash player0 env0)) = True" using u by (metis fst_conv)
  ultimately show ?thesis using c \<open>fst (useDash (snd (fst (useDash player0 env0))) (snd (useDash player0 env0)))
          = (False, snd (fst (useDash player0 env0)))\<close> by blast
qed


section \<open>Damage\<close>

text \<open>
  Claim C7. While the victim's invincibility timer is positive, \<open>takeDamage\<close> returns
  false and changes neither the victim nor the attacker (nor reads the clock). Otherwise
  it returns true; the victim is as before except that it is dead (\<open>isAlive\<close> and
  \<open>isSpawned\<close> false), has one more death, respawns 3000 ms after the clock reading,
  and has been sent the RIP frame if its socket is open; an attacker that is another
  player has one more kill and \<open>100 + level * 20\<close> more score, for the victim's level;
  a null attacker or the victim itself as attacker earns nothing.
\<close>

theorem takeDamage_result:
  "(invincibleDur p > 0 \<longrightarrow> takeDamage p amount att e = ((False, p, att), e)) \<and>
   (\<not> invincibleDur p > 0 \<longrightarrow>
      (\<exists>p1 att1 e1.
         takeDamage p amount att e = ((True, p1, att1), e1) \<and>
         p1 = p\<lparr>isAlive := False, isSpawned := False, deaths := deaths p + 1,
                respawnTime := clock e (clockReads e) + 3000,
                sent := (if socketOpen p then sent p @ [[OPCODE_RIP]] else sent p)\<rparr> \<and>
         (\<forall>a. att = Other a \<longrightarrow>
              att1 = Other (a\<lparr>kills := kills a + 1, score := score a + (100 + level p * 20)\<rparr>)) \<and>
         (att = Null \<longrightarrow> att1 = Null) \<and>
         (att = This \<longrightarrow> att1 = This \<and> kills p1 = kills p \<and> score p1 = score p)))"
  by (cases att) (simp_all add: takeDamage_def die_def Date_now_def)

theorem takeDamage_result_witness:
  "fst (fst (takeDamage (player0\<lparr>invincibleDur := 2\<rparr>) 100 (Other player0) env0)) = False \<and>
   fst (fst (takeDamage player0 100 (Other (player0\<lparr>player_id := 1002\<rparr>)) env0)) = True \<and>
   isAlive (fst (snd (fst (takeDamage player0 100 (Other (player0\<lparr>player_id := 1002\<rparr>)) env0)))) = False \<and>
   respawnTime (fst (snd (fst (takeDamage player0 100 (Other (player0\<lparr>player_id := 1002\<rparr>)) env0)))) = 53000 \<and>
   (\<exists>a. snd (snd (fst (takeDamage player0 100 (Other (player0\<lparr>player_id := 1002\<rparr>)) env0))) = Other a
        \<and> kills a = 1 \<and> score a = 120)"
proof -
  have i: "invincibleDur player0 = 0" and l: "level player0 = 1"
    and k: "kills player0 = 0" and s: "score player0 = 0"
    by (simp_all add: player0_def Player_new_def randomColor_def Math_random_def Date_now_def Let_def)
  from takeDamage_result [of "player0\<lparr>invincibleDur := 2\<rparr>" 100 "Other player0" env0]
  have a: "fst (fst (takeDamage (player0\<lparr>invincibleDur := 2\<rparr>) 100 (Other player0) env0)) = False"
    by simp
  from takeDamage_result [of player0 100 "Other (player0\<lparr>player_id := 1002\<rparr>)" env0] i
  obtain p1 att1 e1 where
    t: "takeDamage player0 100 (Other (player0\<lparr>player_id := 1002\<rparr>)) env0 = ((True, p1, att1), e1)"
    and p1: "p1 = player0\<lparr>isAlive := False, isSpawned := False, deaths := deaths player0 + 1,
                respawnTime := clock env0 (clockReads env0) + 3000,
                sent := (if socketOpen player0 then sent player0 @ [[OPCODE_RIP]] else sent player0)\<rparr>"
    and a1: "att1 = Other (player0\<lparr>player_id := 1002,
                 kills := kills (player0\<lparr>player_id := 1002\<rparr>) + 1,
                 score := score (player0\<lparr>player_id := 1002\<rparr>) + (100 + level player0 * 20)\<rparr>)"
    by auto
  have "isAlive p1 = False" "respawnTime p1 = 53000" by (simp_all add: p1 env0_def)
  moreover have "\<exists>a. att1 = Other a \<and> kills a = 1 \<and> score a = 120"
    by (simp add: a1 k s l)
  ultimately show ?thesis using a t by simp
qed


section \<open>Respawn and the derived level\<close>

text \<open>
  Claim C10. \<open>spawn\<close> leaves score, kills and deaths as they are and sets level 1 and
  size 36. The spawned player is alive, so its next \<open>update\<close> runs \<open>updateSize\<close>, which
  recomputes \<open>level = floor(score/100) + 1\<close> and \<open>size = 36 + (level - 1) * 3\<close> from the
  unchanged score: with a score of 100 or more, the level is above 1 and the size above
  36 again after the first tick.
\<close>

theorem spawn_then_update_level:
  assumes "parts p \<noteq> []"
  shows "\<exists>p1 e1 p2.
           spawn room p e = (p1, e1) \<and>
           score p1 = score p \<and> kills p1 = kills p \<and> deaths p1 = deaths p \<and>
           level p1 = 1 \<and> player_size p1 = 36 \<and>
           update dt rs p1 e1 = (Inr p2, e1) \<and>
           score p2 = score p \<and> kills p2 = kills p \<and> deaths p2 = deaths p \<and>
           level p2 = score p div 100 + 1 \<and> player_size p2 = 36 + (level p2 - 1) * 3 \<and>
           (100 \<le> score p \<longrightarrow> 1 < level p2 \<and> 36 < player_size p2)"
proof -
  obtain p1 e1 where s: "spawn room p e = (p1, e1)" by (cases "spawn room p e")
  with spawn_fields [of room p e]
  have f: "length (parts p1) = length (parts p)" "score p1 = score p" "kills p1 = kills p"
    "deaths p1 = deaths p" "isAlive p1" "level p1 = 1" "player_size p1 = 36" by simp_all
  from f(1) assms have "parts p1 \<noteq> []" by auto
  from update_alive [OF f(5) this, of dt rs e1] obtain p2 where
    u: "update dt rs p1 e1 = (Inr p2, e1)" "score p2 = score p1" "kills p2 = kills p1"
       "deaths p2 = deaths p1" "level p2 = score p1 div 100 + 1"
       "player_size p2 = 36 + (score p1 div 100) * 3" by blast
  have "1 \<le> score p div 100" if "100 \<le> score p"
    using that by (simp add: pos_le_divide_eq zdiv_mono1 [of 100 "score p" 100, simplified])
  then have "100 \<le> score p \<longrightarrow> 1 < level p2 \<and> 36 < player_size p2"
    using u f by auto
  with s f u show ?thesis by simp
qed

theorem spawn_then_update_level_witness:
  "\<exists>p1 e1 p2.
     spawn room0 (player0\<lparr>score := 250\<rparr>) env0 = (p1, e1) \<and> score p1 = 250 \<and> level p1 = 1 \<and>
     player_size p1 = 36 \<and>
     update (1/60) Map.empty p1 e1 = (Inr p2, e1) \<and> score p2 = 250 \<and> level p2 = 3 \<and> player_size p2 = 42"
proof -
  have "parts (player0\<lparr>score := 250\<rparr>) \<noteq> []" using player0_parts by auto
  from spawn_then_update_level [OF this, of room0 env0 "1/60" Map.empty]
  obtain p1 e1 p2 where
    "spawn room0 (player0\<lparr>score := 250\<rparr>) env0 = (p1, e1)" "score p1 = 250" "level p1 = 1"
    "player_size p1 = 36" "update (1/60) Map.empty p1 e1 = (Inr p2, e1)" "score p2 = 250"
    "level p2 = 3" "player_size p2 = 36 + (level p2 - 1) * 3"
    by auto
  then show ?thesis by (intro exI [of _ p1] exI [of _ e1] exI [of _ p2]) simp
qed


section \<open>The break point\<close>

lemma unbrokenChain_follows:
  assumes "unbrokenChain p"
  shows "(\<exists>p1. updateParts dt p = Inr p1 \<and> length (parts p1) = 11 \<and>
            (\<forall>i. 1 \<le> i \<and> i \<le> 10 \<longrightarrow>
               parts p1 ! i = chainFollow (player_size p) (parts p1 ! (i - 1)) (parts p ! i))) \<and>
         (\<exists>pre. encodeFishElement p
               = Inr (pre @ map (\<lambda>q. U8 (word_of_int (encodeUintAngle (part_rot q)))) (tl (parts p))))"
proof
  from assms have a: "breakPoint p = 11" "length (parts p) = 11" by (simp_all add: unbrokenChain_def)
  then obtain q0 qs where qs: "parts p = q0 # qs" by (cases "parts p") auto
  from a have bp: "length (parts p) \<le> breakPoint p" by simp
  from updateParts_no_break [OF qs bp, of dt] a
  show "\<exists>p1. updateParts dt p = Inr p1 \<and> length (parts p1) = 11 \<and>
            (\<forall>i. 1 \<le> i \<and> i \<le> 10 \<longrightarrow>
               parts p1 ! i = chainFollow (player_size p) (parts p1 ! (i - 1)) (parts p ! i))"
    by auto
  from encodeFishElement_no_break [OF qs bp]
  show "\<exists>pre. encodeFishElement p
               = Inr (pre @ map (\<lambda>q. U8 (word_of_int (encodeUintAngle (part_rot q)))) (tl (parts p)))" .
qed

text \<open>
  Claim C1, as amended. The constructor sets the break point to 11 and makes 11 parts,
  whose indices are 0 to 10; so the break point is no index of the chain. No call
  reassigns it: start from a room in which every player has break point 11 and 11 parts
  (an empty room, for one; players enter through the constructor). Then every sequence
  of ticks of the room, entries of new players and calls of \<open>setTarget\<close>, \<open>useDash\<close>,
  \<open>takeDamage\<close> and \<open>spawn\<close> runs without an error, and every player of the room it
  reaches still has break point 11 and 11 parts; for such a player \<open>updateParts\<close>
  succeeds and every part at an index from 1 to 10 is the result of following its
  (already updated) predecessor, none is moved as a free body; and in its FISH record
  the parts after the head are encoded as one quantized-angle byte each, with which the
  record ends.
\<close>

theorem breakPoint_outside_chain:
  assumes "allPlayersUnbroken room"
  shows "breakPoint (fst (Player_new ident sock nm e0)) = 11 \<and>
         length (parts (fst (Player_new ident sock nm e0))) = 11 \<and>
         (\<exists>room1 e1.
            run rs cs room e = (Inr room1, e1) \<and>
            (\<forall>(k, p)\<in>set (players room1).
               breakPoint p = 11 \<and> length (parts p) = 11 \<and>
               (\<exists>p1. updateParts dt p = Inr p1 \<and> length (parts p1) = 11 \<and>
                     (\<forall>i. 1 \<le> i \<and> i \<le> 10 \<longrightarrow>
                        parts p1 ! i = chainFollow (player_size p) (parts p1 ! (i - 1)) (parts p ! i))) \<and>
               (\<exists>pre. encodeFishElement p
                        = Inr (pre @ map (\<lambda>q. U8 (word_of_int (encodeUintAngle (part_rot q))))
                                       (tl (parts p))))))"
proof -
  from run_unbroken [OF assms, of rs cs e] obtain room1 e1 where
    r: "run rs cs room e = (Inr room1, e1)" and ok: "allPlayersUnbroken room1" by blast
  have "breakPoint p = 11 \<and> length (parts p) = 11 \<and>
               (\<exists>p1. updateParts dt p = Inr p1 \<and> length (parts p1) = 11 \<and>
                     (\<forall>i. 1 \<le> i \<and> i \<le> 10 \<longrightarrow>
                        parts p1 ! i = chainFollow (player_size p) (parts p1 ! (i - 1)) (parts p ! i))) \<and>
               (\<exists>pre. encodeFishElement p
                        = Inr (pre @ map (\<lambda>q. U8 (word_of_int (encodeUintAngle (part_rot q))))
                                       (tl (parts p))))"
    if "(k, p) \<in> set (players room1)" for k p
  proof -
    from that have "snd (k, p) \<in> snd ` set (players room1)" by (rule imageI)
    then have "p \<in> set (map snd (players room1))" by simp
    with ok have u: "unbrokenChain p" unfolding allPlayersUnbroken_def by blast
    then have "breakPoint p = 11" "length (parts p) = 11" by (simp_all add: unbrokenChain_def)
    with unbrokenChain_follows [OF u, of dt] show ?thesis by blast
  qed
  with r Player_new_breakPoint [of ident sock nm e0] show ?thesis by blast
qed

theorem breakPoint_outside_chain_witness:
  "\<exists>p e1. run rooms0 [AddPlayer 1001 True ''A'', UseDash 1001] emptyRoom env0
             = (Inr (emptyRoom\<lparr>players := [(1001, p)], playerCount := 1\<rparr>), e1) \<and>
          breakPoint p = 11 \<and> length (parts p) = 11 \<and>
          (\<exists>p1. updateParts (1/60) p = Inr p1 \<and>
                parts p1 ! 10 = chainFollow (player_size p) (parts p1 ! 9) (parts p ! 10)) \<and>
          (\<exists>pre. encodeFishElement p
                   = Inr (pre @ map (\<lambda>q. U8 (word_of_int (encodeUintAngle (part_rot q)))) (tl (parts p))))"
proof -
  have "allPlayersUnbroken emptyRoom" by (simp add: allPlayersUnbroken_def emptyRoom_def)
  from breakPoint_outside_chain [OF this, of 1001 True "''A''" env0 rooms0
      "[AddPlayer 1001 True ''A'', UseDash 1001]" env0 "1/60"]
  obtain room1 e1 where
    r: "run rooms0 [AddPlayer 1001 True ''A'', UseDash 1001] emptyRoom env0 = (Inr room1, e1)"
    and ok: "\<forall>(k, p)\<in>set (players room1).
               breakPoint p = 11 \<and> length (parts p) = 11 \<and>
               (\<exists>p1. updateParts (1/60) p = Inr p1 \<and> length (parts p1) = 11 \<and>
                     (\<forall>i. 1 \<le> i \<and> i \<le> 10 \<longrightarrow>
                        parts p1 ! i = chainFollow (player_size p) (parts p1 ! (i - 1)) (parts p ! i))) \<and>
               (\<exists>pre. encodeFishElement p
                        = Inr (pre @ map (\<lambda>q. U8 (word_of_int (encodeUintAngle (part_rot q))))
                                       (tl (parts p))))"
    by blast
  from run_example obtain p e2 where
    x: "run rooms0 [AddPlayer 1001 True ''A'', UseDash 1001] emptyRoom env0
           = (Inr (emptyRoom\<lparr>players := [(1001, p)], playerCount := 1\<rparr>), e2)" by blast
  from r x have "room1 = emptyRoom\<lparr>players := [(1001, p)], playerCount := 1\<rparr>" by simp
  with ok have b: "breakPoint p = 11" "length (parts p) = 11"
    and e: "\<exists>pre. encodeFishElement p
                   = Inr (pre @ map (\<lambda>q. U8 (word_of_int (encodeUintAngle (part_rot q)))) (tl (parts p)))"
    and "\<exists>p1. updateParts (1/60) p = Inr p1 \<and> length (parts p1) = 11 \<and>
                     (\<forall>i. 1 \<le> i \<and> i \<le> 10 \<longrightarrow>
                        parts p1 ! i = chainFollow (player_size p) (parts p1 ! (i - 1)) (parts p ! i))"
    by simp_all
  then obtain p1 where u: "updateParts (1/60) p = Inr p1"
    and f: "\<forall>i. 1 \<le> i \<and> i \<le> 10 \<longrightarrow>
               parts p1 ! i = chainFollow (player_size p) (parts p1 ! (i - 1)) (parts p ! i)" by blast
  from f have "(1::nat) \<le> 10 \<and> (10::nat) \<le> 10 \<longrightarrow>
      parts p1 ! 10 = chainFollow (player_size p) (parts p1 ! (10 - 1)) (parts p ! 10)"
    by (rule spec)
  then have "parts p1 ! 10 = chainFollow (player_size p) (parts p1 ! 9) (parts p ! 10)" by simp
  with x b e u show ?thesis by blast
qed

text \<open>
  Claim C1 as stated fails for the player that the constructor makes: its break point is
  not 10, its part at index 10 is not what the free-body update would give (after
  \<open>updateParts\<close> its \<open>rot\<close> and \<open>oriRot\<close> agree, as after following; a free body would
  keep \<open>oriRot = 0\<close> and \<open>rot = pi\<close>), and its FISH record ends with a single byte, not
  with four floats.
\<close>

theorem breakPoint_is_not_10:
  "breakPoint player0 \<noteq> 10 \<and>
   (\<exists>p1. updateParts (1/60) player0 = Inr p1 \<and>
         parts p1 ! 10 \<noteq> freeBody (1/60) (parts player0 ! 10)) \<and>
   (\<exists>pre b. encodeFishElement player0 = Inr (pre @ [U8 b]))"
proof -
  obtain q0 qs where qs: "parts player0 = q0 # qs"
    using player0_parts by (cases "parts player0") auto
  have bp: "length (parts player0) \<le> breakPoint player0"
    using player0_parts player0_breakPoint by simp
  from updateParts_no_break [OF qs bp, of "1/60"] obtain p1 where
    u: "updateParts (1/60) player0 = Inr p1"
    and c: "\<forall>i. 1 \<le> i \<and> i < length (parts player0) \<longrightarrow>
               parts p1 ! i = chainFollow (player_size player0) (parts p1 ! (i - 1)) (parts player0 ! i)"
    by blast
  have "(1::nat) \<le> 10 \<and> 10 < length (parts player0)" using player0_parts by simp
  with c have "parts p1 ! 10 = chainFollow (player_size player0) (parts p1 ! (10 - 1)) (parts player0 ! 10)"
    by blast
  then have "part_oriRot (parts p1 ! 10) = part_rot (parts p1 ! 10)"
    by (simp only: chainFollow_oriRot)
  moreover have "part_oriRot (freeBody (1/60) (parts player0 ! 10))
                   \<noteq> part_rot (freeBody (1/60) (parts player0 ! 10))"
    using player0_part10 by (simp add: freeBody_def NarwhalePart_update_def Let_def)
  ultimately have n: "parts p1 ! 10 \<noteq> freeBody (1/60) (parts player0 ! 10)" by metis
  from encodeFishElement_no_break [OF qs bp] obtain pre where
    e: "encodeFishElement player0
          = Inr (pre @ map (\<lambda>q. U8 (word_of_int (encodeUintAngle (part_rot q)))) (tl (parts player0)))"
    by blast
  have "qs \<noteq> []" using player0_parts qs by auto
  then have "map (\<lambda>q. U8 (word_of_int (encodeUintAngle (part_rot q)))) qs
          = map (\<lambda>q. U8 (word_of_int (encodeUintAngle (part_rot q)))) (butlast qs)
            @ [U8 (word_of_int (encodeUintAngle (part_rot (last qs))))]"
    by (metis (no_types, lifting) append_butlast_last_id list.simps(8) list.simps(9) map_append)
  with e qs have "encodeFishElement player0
      = Inr ((pre @ map (\<lambda>q. U8 (word_of_int (encodeUintAngle (part_rot q)))) (butlast qs))
             @ [U8 (word_of_int (encodeUintAngle (part_rot (last qs))))])"
    by simp
  then have "\<exists>pre b. encodeFishElement player0 = Inr (pre @ [U8 b])" by blast
  with u n player0_breakPoint show ?thesis by auto
qed


section \<open>The invariant of the chain and the dash charge\<close>

text \<open>
  Claim C3. Start from a room in which every player has 11 parts and a dash charge
  between 0 and \<open>maxDash\<close> (an empty room, for one; the constructor makes such players).
  Then every sequence of ticks of the room, entries of new players and calls of
  \<open>setTarget\<close>, \<open>useDash\<close>, \<open>takeDamage\<close> and \<open>spawn\<close> on its players runs without an
  error, and in the room it reaches every player has 11 parts and a charge between 0 and
  \<open>maxDash\<close>. The charge is an integer by its type here: the source only ever assigns
  it \<open>5\<close>, \<open>maxDash\<close>, \<open>curDash - 1\<close> and \<open>min(maxDash, curDash + 1)\<close>.
\<close>

theorem run_keeps_chain_and_dash:
  assumes "allPlayersOk room"
  shows "\<exists>room1 e1. run rs cs room e = (Inr room1, e1) \<and>
           (\<forall>(k, p)\<in>set (players room1).
              length (parts p) = 11 \<and> 0 \<le> curDash p \<and> curDash p \<le> maxDash p)"
proof -
  have "\<exists>room1 e1. run rs cs room e = (Inr room1, e1) \<and> allPlayersOk room1"
    using assms
  proof (induction cs arbitrary: room e)
    case Nil
    then show ?case by simp
  next
    case (Cons c cs)
    from step_ok [OF Cons.prems, of rs c e] obtain room1 e1 where
      s: "step rs c room e = (Inr room1, e1)" and ok: "allPlayersOk room1" by blast
    from Cons.IH [OF ok, of e1] s show ?case by simp
  qed
  then obtain room1 e1 where r: "run rs cs room e = (Inr room1, e1)" and ok: "allPlayersOk room1"
    by blast
  have "length (parts p) = 11 \<and> 0 \<le> curDash p \<and> curDash p \<le> maxDash p"
    if "(k, p) \<in> set (players room1)" for k p
  proof -
    from that have "snd (k, p) \<in> snd ` set (players room1)" by (rule imageI)
    then have "p \<in> set (map snd (players room1))" by simp
    with ok have "chainAndDashOk p" unfolding allPlayersOk_def by blast
    then show ?thesis by (simp add: chainAndDashOk_def)
  qed
  with r show ?thesis by blast
qed


theorem run_keeps_chain_and_dash_witness:
  "\<exists>p e1. run rooms0 [AddPlayer 1001 True ''A'', UseDash 1001] emptyRoom env0
           = (Inr (emptyRoom\<lparr>players := [(1001, p)], playerCount := 1\<rparr>), e1) \<and>
          length (parts p) = 11 \<and> curDash p = 4 \<and> curDash p \<le> maxDash p"
proof -
  have "allPlayersOk emptyRoom" by (simp add: allPlayersOk_def emptyRoom_def)
  from run_keeps_chain_and_dash [OF this, of rooms0 "[AddPlayer 1001 True ''A'', UseDash 1001]" env0]
  obtain room1 e1 where
    r: "run rooms0 [AddPlayer 1001 True ''A'', UseDash 1001] emptyRoom env0 = (Inr room1, e1)"
    and ok: "\<forall>(k, p)\<in>set (players room1).
               length (parts p) = 11 \<and> 0 \<le> curDash p \<and> curDash p \<le> maxDash p"
    by blast
  from run_example obtain p e2 where
    x: "run rooms0 [AddPlayer 1001 True ''A'', UseDash 1001] emptyRoom env0
           = (Inr (emptyRoom\<lparr>players := [(1001, p)], playerCount := 1\<rparr>), e2)"
    and c: "curDash p = 4" by blast
  from r x have "room1 = emptyRoom\<lparr>players := [(1001, p)], playerCount := 1\<rparr>" by simp
  with ok have "length (parts p) = 11 \<and> 0 \<le> curDash p \<and> curDash p \<le> maxDash p" by simp
  with x c show ?thesis by blast
qed


section \<open>Collisions between players\<close>

text \<open>
  Claim C6. Let \<open>ps\<close> be the players of a room before \<open>checkCollisions\<close> and \<open>ps'\<close> after
  it, and call a player alive if it is alive before the sweep. A player \<open>u\<close> damages a
  player \<open>v\<close> when they are closer than \<open>(size1 + size2) * 0.6\<close>, \<open>u\<close> is larger than \<open>v\<close> by
  more than 10 and \<open>v\<close> is not invincible. Then for every alive player \<open>v\<close> the number of
  its deaths grows by the number of alive players that damage it, and the number of its
  kills by the number of alive players that it damages: every pair counts once, and only
  for its smaller side, since of two players at most one damages the other; pairs whose
  sizes differ by 10 or less count for nothing. A player is alive after the sweep if and
  only if it was alive before and no alive player damages it.
\<close>

theorem checkCollisions_damage:
  assumes ps: "ps = map snd (players room)"
    and ps': "ps' = map snd (players (fst (checkCollisions room e)))"
  shows "length ps' = length ps \<and>
         (\<forall>v<length ps.
            deaths (ps' ! v) =
              deaths (ps ! v) +
              (if isAlive (ps ! v)
               then int (length (filter (\<lambda>u. damages (ps ! u) (ps ! v)) (aliveIndices ps))) else 0) \<and>
            kills (ps' ! v) =
              kills (ps ! v) +
              (if isAlive (ps ! v)
               then int (length (filter (\<lambda>w. damages (ps ! v) (ps ! w)) (aliveIndices ps))) else 0) \<and>
            (isAlive (ps' ! v) \<longleftrightarrow>
               isAlive (ps ! v) \<and> \<not> (\<exists>u<length ps. isAlive (ps ! u) \<and> damages (ps ! u) (ps ! v)))) \<and>
         (\<forall>u v. damages (ps ! u) (ps ! v) \<longrightarrow> \<not> damages (ps ! v) (ps ! u))"
proof -
  from checkCollisions_players [of room e] obtain ps1 e1 ps2 fs2 e2 where
    a: "pvpOuter (aliveIndices ps) ps e = (ps1, e1)"
    and b: "foodSweep (aliveIndices ps) (options room) ps1 (foods room) e1 = ((ps2, fs2), e2)"
    and c: "players (fst (checkCollisions room e)) = zip (map fst (players room)) ps2"
    unfolding ps by blast
  have bd: "\<forall>a\<in>set (aliveIndices ps). a < length ps" by (rule aliveIndices_bound)
  from pvpOuter_effect [OF sameBodies_refl aliveIndices_distinct bd, of e] a
  have sb: "sameBodies ps ps1"
    and f1: "\<forall>x<length ps.
            deaths (ps1 ! x) =
              deaths (ps ! x) +
              (if x \<in> set (aliveIndices ps) then int (length (filter (\<lambda>u. damages (ps ! u) (ps ! x)) (aliveIndices ps))) else 0) \<and>
            kills (ps1 ! x) =
              kills (ps ! x) +
              (if x \<in> set (aliveIndices ps) then int (length (filter (\<lambda>v. damages (ps ! x) (ps ! v)) (aliveIndices ps))) else 0) \<and>
            isAlive (ps1 ! x) =
              (isAlive (ps ! x) \<and> \<not> (x \<in> set (aliveIndices ps) \<and> (\<exists>u\<in>set (aliveIndices ps). damages (ps ! u) (ps ! x))))"
    by simp_all
  from sb have l1: "length ps1 = length ps" by (simp add: sameBodies_def)
  from bd l1 have "\<forall>b\<in>set (aliveIndices ps). b < length ps1" by simp
  from foodSweep_frame [OF this, of "options room" "foods room" e1] b l1
  have l2: "length ps2 = length ps"
    and f2: "\<forall>x<length ps. deaths (ps2 ! x) = deaths (ps1 ! x) \<and> kills (ps2 ! x) = kills (ps1 ! x) \<and>
                    isAlive (ps2 ! x) = isAlive (ps1 ! x)"
    by simp_all
  have e: "ps' = ps2" unfolding ps' c using l2 ps by simp
  have "deaths (ps2 ! v) =
              deaths (ps ! v) +
              (if isAlive (ps ! v)
               then int (length (filter (\<lambda>u. damages (ps ! u) (ps ! v)) (aliveIndices ps))) else 0) \<and>
            kills (ps2 ! v) =
              kills (ps ! v) +
              (if isAlive (ps ! v)
               then int (length (filter (\<lambda>w. damages (ps ! v) (ps ! w)) (aliveIndices ps))) else 0) \<and>
            (isAlive (ps2 ! v) \<longleftrightarrow>
               isAlive (ps ! v) \<and> \<not> (\<exists>u<length ps. isAlive (ps ! u) \<and> damages (ps ! u) (ps ! v)))"
    if v: "v < length ps" for v
  proof -
    from f1 v have g: "deaths (ps1 ! v) =
              deaths (ps ! v) +
              (if v \<in> set (aliveIndices ps) then int (length (filter (\<lambda>u. damages (ps ! u) (ps ! v)) (aliveIndices ps))) else 0)"
      "kills (ps1 ! v) =
              kills (ps ! v) +
              (if v \<in> set (aliveIndices ps) then int (length (filter (\<lambda>w. damages (ps ! v) (ps ! w)) (aliveIndices ps))) else 0)"
      "isAlive (ps1 ! v) =
              (isAlive (ps ! v) \<and> \<not> (v \<in> set (aliveIndices ps) \<and> (\<exists>u\<in>set (aliveIndices ps). damages (ps ! u) (ps ! v))))"
      by blast+
    from f2 v have h: "deaths (ps2 ! v) = deaths (ps1 ! v)" "kills (ps2 ! v) = kills (ps1 ! v)"
      "isAlive (ps2 ! v) = isAlive (ps1 ! v)" by blast+
    show ?thesis unfolding h g using v by (auto simp add: aliveIndices_set)
  qed
  with l2 e damages_exclusive show ?thesis by blast
qed


theorem checkCollisions_damage_witness:
  "length (map snd (players (fst (checkCollisions (roomOf [sized 1 40, sized 2 20]) env0)))) = 2 \<and>
   isAlive (map snd (players (fst (checkCollisions (roomOf [sized 1 40, sized 2 20]) env0))) ! 0) \<and>
   \<not> isAlive (map snd (players (fst (checkCollisions (roomOf [sized 1 40, sized 2 20]) env0))) ! 1) \<and>
   deaths (map snd (players (fst (checkCollisions (roomOf [sized 1 40, sized 2 20]) env0))) ! 1) = 1 \<and>
   kills (map snd (players (fst (checkCollisions (roomOf [sized 1 40, sized 2 20]) env0))) ! 0) = 1 \<and>
   isAlive (map snd (players (fst (checkCollisions (roomOf [sized 1 25, sized 2 20]) env0))) ! 0) \<and>
   isAlive (map snd (players (fst (checkCollisions (roomOf [sized 1 25, sized 2 20]) env0))) ! 1)"
proof -
  have al: "aliveIndices [sized k sz, sized k' sz'] = [0, 1]" for k sz k' sz'
    using player0_body by (simp add: aliveIndices_def sized_def upt_rec)
  have ps: "map snd (players (roomOf [p, q])) = [p, q]" for p q
    by (simp add: roomOf_def)
  have two: "(\<exists>u<2. P u) \<longleftrightarrow> P 0 \<or> P (Suc 0)" for P :: "nat \<Rightarrow> bool"
    by (auto simp add: less_2_cases_iff)
  have st: "isAlive (sized k sz)" "deaths (sized k sz) = 0" "kills (sized k sz) = 0" for k sz
    using player0_body by (simp_all add: sized_def)
  note a = checkCollisions_damage [OF refl refl, of "roomOf [sized 1 40, sized 2 20]" env0, unfolded ps]
  note b = checkCollisions_damage [OF refl refl, of "roomOf [sized 1 25, sized 2 20]" env0, unfolded ps]
  note av = a [THEN conjunct2, THEN conjunct1, rule_format]
  note bv = b [THEN conjunct2, THEN conjunct1, rule_format]
  have l0: "0 < length [p, q]" and l1: "1 < length [p, q]" for p q :: Player by simp_all
  from a have a0: "length (map snd (players (fst (checkCollisions (roomOf [sized 1 40, sized 2 20]) env0)))) = 2"
    by simp
  have hit: "\<exists>u<length [sized 1 40, sized 2 20]. isAlive ([sized 1 40, sized 2 20] ! u) \<and>
               damages ([sized 1 40, sized 2 20] ! u) ([sized 1 40, sized 2 20] ! 1)"
    by (rule exI [of _ 0]) (simp add: st sized_damages)
  have safe0: "\<not> (\<exists>u<length [sized 1 40, sized 2 20]. isAlive ([sized 1 40, sized 2 20] ! u) \<and>
               damages ([sized 1 40, sized 2 20] ! u) ([sized 1 40, sized 2 20] ! 0))"
  proof
    assume "\<exists>u<length [sized 1 40, sized 2 20]. isAlive ([sized 1 40, sized 2 20] ! u) \<and>
               damages ([sized 1 40, sized 2 20] ! u) ([sized 1 40, sized 2 20] ! 0)"
    then obtain u where u: "u < length [sized 1 40, sized 2 20]"
      and d: "damages ([sized 1 40, sized 2 20] ! u) ([sized 1 40, sized 2 20] ! 0)" by blast
    from u have "u = 0 \<or> u = 1" by auto
    then show False using d by (auto simp add: sized_damages)
  qed
  have safeb: "\<not> (\<exists>u<length [sized 1 25, sized 2 20]. isAlive ([sized 1 25, sized 2 20] ! u) \<and>
               damages ([sized 1 25, sized 2 20] ! u) ([sized 1 25, sized 2 20] ! v))" if "v < 2" for v
  proof
    assume "\<exists>u<length [sized 1 25, sized 2 20]. isAlive ([sized 1 25, sized 2 20] ! u) \<and>
               damages ([sized 1 25, sized 2 20] ! u) ([sized 1 25, sized 2 20] ! v)"
    then obtain u where u: "u < length [sized 1 25, sized 2 20]"
      and d: "damages ([sized 1 25, sized 2 20] ! u) ([sized 1 25, sized 2 20] ! v)" by blast
    from u have "u = 0 \<or> u = 1" by auto
    moreover from that have "v = 0 \<or> v = 1" by auto
    ultimately show False using d by (auto simp add: sized_damages)
  qed
  from av [OF l0] safe0 have "isAlive (map snd (players (fst (checkCollisions (roomOf [sized 1 40, sized 2 20]) env0))) ! 0)"
    using st(1) [of 1 40] by simp
  moreover from av [OF l1] hit have "\<not> isAlive (map snd (players (fst (checkCollisions (roomOf [sized 1 40, sized 2 20]) env0))) ! 1)"
    by blast
  moreover from av [OF l1] have "deaths (map snd (players (fst (checkCollisions (roomOf [sized 1 40, sized 2 20]) env0))) ! 1) = 1"
    by (simp add: al st sized_damages)
  moreover from av [OF l0] have "kills (map snd (players (fst (checkCollisions (roomOf [sized 1 40, sized 2 20]) env0))) ! 0) = 1"
    by (simp add: al st sized_damages)
  moreover from bv [OF l0] safeb [of 0] have "isAlive (map snd (players (fst (checkCollisions (roomOf [sized 1 25, sized 2 20]) env0))) ! 0)"
    using st(1) [of 1 25] by simp
  moreover from bv [OF l1] safeb [of 1] have "isAlive (map snd (players (fst (checkCollisions (roomOf [sized 1 25, sized 2 20]) env0))) ! 1)"
    using st(1) [of 2 20] by simp
  ultimately show ?thesis using a0 by blast
qed


section \<open>The SET\_ELEMENTS packet and the clock\<close>

lemma js_and_65535: "js_and v 0xFFFF = v mod 65536"
  using js_and_mask [of 16 v] by simp

lemma setElements_header:
  "writes [writeUInt8 48, writeUInt16LE (c mod 65536), writeUInt8 0]
     = Inr [U8 48, U8 (word_of_int (c mod 65536)), U8 (word_of_int (c mod 65536 div 256)), U8 0]"
proof -
  have "0 \<le> c mod 65536" "c mod 65536 < 65536" by simp_all
  then have "0 \<le> c mod 65536 \<and> c mod 65536 \<le> 65535" by linarith
  then show ?thesis by (simp add: writeUInt8_def writeUInt16LE_def)
qed

lemma encodeSetElements_eq:
  "fst (encodeSetElements room e) =
     (case writes (setElementsBody room) of
        Inl err \<Rightarrow> Inl err
      | Inr b \<Rightarrow>
          if 4 + sum_list (map wire_size b) > bufferSize room then Inl RangeError
          else Inr ([U8 48, U8 (word_of_int (clock e (clockReads e) mod 65536)),
                     U8 (word_of_int (clock e (clockReads e) mod 65536 div 256)), U8 0] @ b))"
proof -
  have a: "writes ([writeUInt8 48, writeUInt16LE (clock e (clockReads e) mod 65536), writeUInt8 0] @ setElementsBody room)
      = (case writes (setElementsBody room) of Inl err \<Rightarrow> Inl err
         | Inr b \<Rightarrow> Inr ([U8 48, U8 (word_of_int (clock e (clockReads e) mod 65536)),
                     U8 (word_of_int (clock e (clockReads e) mod 65536 div 256)), U8 0] @ b))"
    unfolding writes_append setElements_header by simp
  show ?thesis
    unfolding encodeSetElements_def Date_now_def js_and_65535 Let_def prod.case fst_conv a
    by (simp split: sum.split)
qed

lemma timestamp_bytes_eq:
  assumes "0 \<le> s" "s < 65536" "0 \<le> t" "t < 65536"
  shows "((word_of_int s :: 8 word) = word_of_int t \<and> (word_of_int (s div 256) :: 8 word) = word_of_int (t div 256))
          \<longleftrightarrow> s = t"
proof
  assume "s = t" then show "(word_of_int s :: 8 word) = word_of_int t \<and> (word_of_int (s div 256) :: 8 word) = word_of_int (t div 256)" by simp
next
  assume a: "(word_of_int s :: 8 word) = word_of_int t \<and> (word_of_int (s div 256) :: 8 word) = word_of_int (t div 256)"
  then have "uint (word_of_int s :: 8 word) = uint (word_of_int t :: 8 word)" by simp
  then have m: "s mod 256 = t mod 256" by (simp add: uint_word_of_int)
  from a have "uint (word_of_int (s div 256) :: 8 word) = uint (word_of_int (t div 256) :: 8 word)" by simp
  then have "(s div 256) mod 256 = (t div 256) mod 256" by (simp add: uint_word_of_int)
  moreover have "0 \<le> s div 256" "s div 256 < 256" "0 \<le> t div 256" "t div 256 < 256" using assms by auto
  ultimately have d: "s div 256 = t div 256" by simp
  have "s = 256 * (s div 256) + s mod 256" by simp
  also have "\<dots> = 256 * (t div 256) + t mod 256" using d m by simp
  also have "\<dots> = t" by simp
  finally show "s = t" .
qed

subsection \<open>The packet of a room whose players have unbroken chains\<close>

lemma js_and_u32_small:
  assumes "0 \<le> v" and "v < 2147483648"
  shows "js_and v 0xFFFFFFFF = v"
proof -
  have m: "(4294967295 :: 32 word) = - 1" by simp
  have "js_and v 0xFFFFFFFF = sint ((word_of_int v :: 32 word) AND 4294967295)"
    by (simp add: js_and_def)
  also have "\<dots> = sint (word_of_int v :: 32 word)" unfolding m by simp
  also have "\<dots> = v" using assms by (rule sint_word_of_int_small)
  finally show ?thesis .
qed

lemma encodeFoodElement_ok:
  assumes "0 \<le> food_id f" and "food_id f < 2147483648"
  shows "\<exists>out. encodeFoodElement f = Inr out \<and> sum_list (map wire_size out) = 18"
proof -
  have six: "writeUInt8 6 = Inr [U8 6]" by (simp add: writeUInt8_def)
  from assms have "writeUInt32LE (js_and (food_id f) 0xFFFFFFFF)
      = Inr [U8 (word_of_int (food_id f)), U8 (word_of_int (food_id f div 256)),
             U8 (word_of_int (food_id f div 65536)), U8 (word_of_int (food_id f div 16777216))]"
    by (simp add: js_and_u32_small writeUInt32LE_def)
  then show ?thesis
    by (simp add: encodeFoodElement_def writeUInt8_masked writeFloatLE_def six)
qed

lemma bytes_size: "sum_list (map wire_size (map (\<lambda>c. U8 (f c)) xs)) = length xs"
  by (induction xs) simp_all

lemma bytes_size_comp: "sum_list (map (wire_size \<circ> (\<lambda>c. U8 (f c))) xs) = length xs"
  by (induction xs) simp_all

lemma fishHeader_size:
  "\<exists>h. writes (fishHeader p) = Inr h \<and> sum_list (map wire_size h) = 9 + min 20 (length (name p))"
proof -
  obtain b0 b1 b2 b3 where "writeUInt32LE (js_ushr (player_id p) 0) = Inr [U8 b0, U8 b1, U8 b2, U8 b3]"
    using writeUInt32LE_ushr by blast
  then show ?thesis
    by (simp add: fishHeader_def writeUInt8_masked writeUInt8_0 min.commute bytes_size_comp)
qed

lemma encodeFishElement_size:
  assumes "unbrokenChain p"
  shows "\<exists>out. encodeFishElement p = Inr out \<and>
               sum_list (map wire_size out) = 40 + min 20 (length (name p))"
proof -
  from assms have a: "breakPoint p = 11" "length (parts p) = 11" by (simp_all add: unbrokenChain_def)
  then obtain q0 qs where qs: "parts p = q0 # qs" by (cases "parts p") auto
  with a have lq: "length qs = 10" by simp
  obtain h where h: "writes (fishHeader p) = Inr h"
    "sum_list (map wire_size h) = 9 + min 20 (length (name p))"
    using fishHeader_size by blast
  have segs: "writes (encodeParts (Suc 0) (breakPoint p) qs)
          = Inr (map (\<lambda>q. U8 (word_of_int (encodeUintAngle (part_rot q)))) qs)"
    by (rule encodeParts_no_break) (use a lq in simp)
  obtain b0 b1 where sp: "writeUInt16LE (min \<lfloor>sqrt (part_vx q0 * part_vx q0 + part_vy q0 * part_vy q0)\<rfloor> 65535) = Inr [U8 b0, U8 b1]"
    using writeUInt16LE_speed by blast
  have tl: "writeUInt8 (teamLevelByte p) = Inr [U8 (word_of_int (teamLevelByte p))]"
    using teamLevelByte_range [of p] by (simp add: writeUInt8_def)
  have db: "writeUInt8 (dashByte p) = Inr [U8 (word_of_int (dashByte p))]"
    using dashByte_range [of p] by (simp add: writeUInt8_def)
  have ln: "writeUInt8 (min 255 (int (length qs))) = Inr [U8 (word_of_int (min 255 (int (length qs))))]"
    by (rule writeUInt8_byte) simp_all
  let ?mid = "[U8 (word_of_int \<lfloor>alpha p * 255\<rfloor>),
               U8 (word_of_int (dashByte p)),
               U8 (word_of_int \<lfloor>overDash p * 255\<rfloor>),
               U8 (word_of_int \<lfloor>tuskRatio p * 127\<rfloor>),
               U8 (word_of_int (decoration p)), F32 (part_x q0),
               F32 (part_y q0), U8 b0, U8 b1,
               U8 (word_of_int (encodeUintAngle (atan2 (part_vy q0) (part_vx q0)))),
               U8 (word_of_int (encodeUintAngle (part_rot q0))),
               U8 (word_of_int (skincode p)),
               U8 (word_of_int \<lfloor>invincibleDur p * 255\<rfloor>),
               U8 (word_of_int (min 255 (int (length qs))))]"
  let ?segs = "map (\<lambda>q. U8 (word_of_int (encodeUintAngle (part_rot q)))) qs"
  have e: "encodeFishElement p = Inr (h @ U8 (word_of_int (teamLevelByte p)) # ?mid @ ?segs)"
    unfolding encodeFishElement_def qs list.case Let_def writes_append h sum.case
    by (simp add: tl db ln sp segs writeUInt8_masked writeUInt8_angle writeFloatLE_def)
  have "sum_list (map wire_size (h @ U8 (word_of_int (teamLevelByte p)) # ?mid @ ?segs))
          = (9 + min 20 (length (name p))) + 1 + 20 + length qs"
    unfolding map_append sum_list_append list.map sum_list.Cons h(2) bytes_size by simp
  with lq have "sum_list (map wire_size (h @ U8 (word_of_int (teamLevelByte p)) # ?mid @ ?segs))
          = 40 + min 20 (length (name p))" by simp
  with e show ?thesis by blast
qed

lemma writes_map_sized:
  assumes "\<forall>x\<in>set xs. \<exists>out. f x = Inr out \<and> sum_list (map wire_size out) \<le> g x"
  shows "\<exists>out. writes (map f xs) = Inr out \<and> sum_list (map wire_size out) \<le> sum_list (map g xs)"
  using assms
proof (induction xs)
  case Nil
  show ?case by simp
next
  case (Cons x xs)
  from Cons.prems obtain o1 where o1: "f x = Inr o1" "sum_list (map wire_size o1) \<le> g x" by auto
  from Cons.prems have "\<forall>x\<in>set xs. \<exists>out. f x = Inr out \<and> sum_list (map wire_size out) \<le> g x" by simp
  from Cons.IH [OF this] obtain o2 where
    o2: "writes (map f xs) = Inr o2" "sum_list (map wire_size o2) \<le> sum_list (map g xs)" by blast
  from o1 o2 show ?case by simp
qed

lemma setElementsBody_ok:
  assumes "allPlayersUnbroken room" and "smallIds (foods room)"
  shows "\<exists>b. writes (setElementsBody room) = Inr b \<and>
             4 + sum_list (map wire_size b) \<le> bufferSize room"
proof -
  define ps where "ps = filter (\<lambda>p. isAlive p \<and> isSpawned p) (map snd (players room))"
  define fs where "fs = take 100 (foods room)"
  have "\<forall>p\<in>set ps. \<exists>out. encodeFishElement p = Inr out \<and>
          sum_list (map wire_size out) \<le> 64 + length (name p) + length (parts p) * 5"
  proof
    fix p assume "p \<in> set ps"
    then have "p \<in> set (map snd (players room))" by (simp add: ps_def)
    with assms(1) have u: "unbrokenChain p" unfolding allPlayersUnbroken_def by blast
    from encodeFishElement_size [OF u] obtain out where
      o: "encodeFishElement p = Inr out" "sum_list (map wire_size out) = 40 + min 20 (length (name p))"
      by blast
    have "40 + min 20 (length (name p)) \<le> 64 + length (name p) + length (parts p) * 5" by simp
    with o show "\<exists>out. encodeFishElement p = Inr out \<and>
          sum_list (map wire_size out) \<le> 64 + length (name p) + length (parts p) * 5" by simp
  qed
  from writes_map_sized [of ps encodeFishElement "\<lambda>p. 64 + length (name p) + length (parts p) * 5", OF this]
  obtain o1 where o1: "writes (map encodeFishElement ps) = Inr o1"
    "sum_list (map wire_size o1) \<le> sum_list (map (\<lambda>p. 64 + length (name p) + length (parts p) * 5) ps)"
    by blast
  have "\<forall>f\<in>set fs. \<exists>out. encodeFoodElement f = Inr out \<and> sum_list (map wire_size out) \<le> 20"
  proof
    fix f assume "f \<in> set fs"
    then have "f \<in> set (foods room)" unfolding fs_def by (rule in_set_takeD)
    with assms(2) have "0 \<le> food_id f" "food_id f < 2147483648" by (simp_all add: smallIds_def)
    from encodeFoodElement_ok [OF this] show
      "\<exists>out. encodeFoodElement f = Inr out \<and> sum_list (map wire_size out) \<le> 20" by auto
  qed
  from writes_map_sized [of fs encodeFoodElement "\<lambda>f. 20", OF this]
  obtain o2 where o2: "writes (map encodeFoodElement fs) = Inr o2"
    "sum_list (map wire_size o2) \<le> sum_list (map (\<lambda>f. 20) fs)"
    by blast
  have "sum_list (map (\<lambda>f. 20::nat) fs) = length fs * 20" by (simp add: sum_list_triv)
  with o2 have o2': "sum_list (map wire_size o2) \<le> length fs * 20" by simp
  have w: "writes (setElementsBody room) = Inr (o1 @ o2)"
    unfolding setElementsBody_def Let_def ps_def [symmetric] fs_def [symmetric] writes_append o1 o2
    by simp
  have "bufferSize room = 64 + sum_list (map (\<lambda>p. 64 + length (name p) + length (parts p) * 5) ps) + length fs * 20"
    unfolding bufferSize_def Let_def ps_def [symmetric] fs_def [symmetric] ..
  with o1(2) o2' have "4 + sum_list (map wire_size (o1 @ o2)) \<le> bufferSize room" by simp
  with w show ?thesis by blast
qed

lemma encodeSetElements_ok:
  assumes "allPlayersUnbroken room" and "smallIds (foods room)"
  shows "\<exists>b. fst (encodeSetElements room e)
              = Inr ([U8 48, U8 (word_of_int (clock e (clockReads e) mod 65536)),
                      U8 (word_of_int (clock e (clockReads e) mod 65536 div 256)), U8 0] @ b)"
proof -
  from setElementsBody_ok [OF assms] obtain b where
    b: "writes (setElementsBody room) = Inr b" "4 + sum_list (map wire_size b) \<le> bufferSize room"
    by blast
  then have "\<not> 4 + sum_list (map wire_size b) > bufferSize room" by simp
  with b(1) show ?thesis by (simp add: encodeSetElements_eq)
qed

subsection \<open>No call changes the clock or the random source\<close>

lemma earlyEnv_srcs: "srcs e1 = srcs e \<Longrightarrow> earlyEnv e1 = earlyEnv e"
  by (simp add: srcs_def earlyEnv_def)

lemma Date_now_srcs: "srcs (snd (Date_now e)) = srcs e"
  by (simp add: Date_now_def srcs_def)

lemma Math_random_srcs: "srcs (snd (Math_random e)) = srcs e"
  by (simp add: Math_random_def srcs_def)

lemma Food_new_srcs: "srcs (snd (Food_new fx fy v e)) = srcs e"
  by (simp add: Food_new_def Let_def split_def Date_now_srcs Math_random_srcs)

lemma randomFood_srcs: "srcs (snd (randomFood opts e)) = srcs e"
  by (simp add: randomFood_def Let_def split_def Food_new_srcs Math_random_srcs)

lemma generateFood_srcs: "srcs (snd (generateFood n opts fs e)) = srcs e"
  by (induction n arbitrary: fs e) (simp_all add: Let_def split_def randomFood_srcs)

lemma spawn_srcs: "srcs (snd (spawn room p e)) = srcs e"
  by (simp add: spawn_def Let_def split_def Math_random_srcs)

lemma Player_new_srcs: "srcs (snd (Player_new ident sock nm e)) = srcs e"
  by (simp add: Player_new_def randomColor_def Let_def split_def Math_random_srcs Date_now_srcs)

lemma validateDash_srcs: "srcs (snd (validateDash p e)) = srcs e"
  by (simp add: validateDash_def Let_def split_def Date_now_srcs)

lemma useDash_srcs: "srcs (snd (useDash p e)) = srcs e"
  by (simp add: useDash_def Let_def split_def Date_now_srcs validateDash_srcs)

lemma die_srcs: "srcs (snd (die p e)) = srcs e"
  by (simp add: die_def Let_def split_def Date_now_srcs)

lemma takeDamage_srcs: "srcs (snd (takeDamage p amount att e)) = srcs e"
  by (simp add: takeDamage_def Let_def split_def die_srcs)

lemma update_srcs: "srcs (snd (update dt rs p e)) = srcs e"
  by (simp add: update_def Let_def split_def Date_now_srcs spawn_srcs split: option.split sum.split)

lemma damageAt_srcs: "srcs (snd (damageAt v a ps e)) = srcs e"
  by (simp add: damageAt_def Let_def split_def takeDamage_srcs split: attacker.split)

lemma collidePair_srcs: "srcs (snd (collidePair a b ps e)) = srcs e"
  by (simp add: collidePair_def Let_def damageAt_srcs)

lemma pvpInner_srcs: "srcs (snd (pvpInner a bs ps e)) = srcs e"
  by (induction bs arbitrary: ps e) (simp_all add: Let_def split_def collidePair_srcs)

lemma pvpOuter_srcs: "srcs (snd (pvpOuter as ps e)) = srcs e"
  by (induction as arbitrary: ps e) (simp_all add: Let_def split_def pvpInner_srcs)

lemma eatFoods_srcs: "srcs (snd (eatFoods a n opts ps fs e)) = srcs e"
  by (induction n arbitrary: ps fs e) (simp_all add: Let_def split_def randomFood_srcs Math_random_srcs)

lemma foodSweep_srcs: "srcs (snd (foodSweep as opts ps fs e)) = srcs e"
  by (induction as arbitrary: ps fs e) (simp_all add: Let_def split_def eatFoods_srcs)

lemma checkCollisions_srcs: "srcs (snd (checkCollisions room e)) = srcs e"
  by (simp add: checkCollisions_def Let_def split_def foodSweep_srcs pvpOuter_srcs)

lemma updatePlayers_srcs: "srcs (snd (updatePlayers dt rs kps e)) = srcs e"
proof (induction kps arbitrary: e)
  case Nil
  show ?case by simp
next
  case (Cons kp kps)
  obtain k p where kp: "kp = (k, p)" by (cases kp)
  obtain r e1 where u: "update dt rs p e = (r, e1)" by (cases "update dt rs p e")
  from update_srcs [of dt rs p e] u have s1: "srcs e1 = srcs e" by simp
  obtain r2 e2 where v: "updatePlayers dt rs kps e1 = (r2, e2)" by (cases "updatePlayers dt rs kps e1")
  from Cons.IH [of e1] v have s2: "srcs e2 = srcs e1" by simp
  from u v s1 s2 show ?case by (simp add: kp split: sum.split)
qed

lemma GameRoom_update_srcs: "srcs (snd (GameRoom_update dt rs room e)) = srcs e"
proof -
  obtain r e1 where u: "updatePlayers dt rs (players room) e = (r, e1)"
    by (cases "updatePlayers dt rs (players room) e")
  from updatePlayers_srcs [of dt rs "players room" e] u have s1: "srcs e1 = srcs e" by simp
  show ?thesis
    using u s1
    by (simp add: GameRoom_update_def Let_def split_def checkCollisions_srcs generateFood_srcs
        split: sum.split)
qed

lemma addPlayer_srcs: "srcs (snd (addPlayer p room e)) = srcs e"
  by (simp add: addPlayer_def Let_def split_def spawn_srcs)

lemma step_srcs: "srcs (snd (step rs c room e)) = srcs e"
proof (cases c)
  case (Tick dt)
  then show ?thesis by (simp add: step_def GameRoom_update_srcs)
next
  case (AddPlayer ident sock nm)
  then show ?thesis by (simp add: step_def Let_def split_def addPlayer_srcs Player_new_srcs)
next
  case (SetTarget k tx ty)
  then show ?thesis by (simp add: step_def split: option.split)
next
  case (UseDash k)
  then show ?thesis by (simp add: step_def Let_def split_def useDash_srcs split: option.split)
next
  case (TakeDamage k amount a)
  then show ?thesis by (simp add: step_def Let_def split_def takeDamage_srcs split: option.split)
next
  case (Spawn k)
  then show ?thesis by (simp add: step_def Let_def split_def spawn_srcs split: option.split)
qed

lemma run_srcs: "srcs (snd (run rs cs room e)) = srcs e"
proof (induction cs arbitrary: room e)
  case Nil
  show ?case by simp
next
  case (Cons c cs)
  obtain r e1 where s: "step rs c room e = (r, e1)" by (cases "step rs c room e")
  from step_srcs [of rs c room e] s have s1: "srcs e1 = srcs e" by simp
  show ?case
  proof (cases r)
    case (Inl err)
    with s s1 show ?thesis by simp
  next
    case (Inr room1)
    with s s1 Cons.IH [of room1 e1] show ?thesis by simp
  qed
qed

subsection \<open>The ids of the food\<close>

lemma randomFood_small:
  assumes "earlyEnv e"
  shows "0 \<le> food_id (fst (randomFood opts e)) \<and> food_id (fst (randomFood opts e)) < 2147483648"
proof -
  define c where "c = clock e (clockReads e)"
  define r where "r = random e (Suc (Suc (Suc (randomDraws e))))"
  have id: "food_id (fst (randomFood opts e)) = c + \<lfloor>r * 1000\<rfloor>"
    by (simp add: randomFood_def Food_new_def Date_now_def Math_random_def Let_def c_def r_def)
  from assms have c: "0 \<le> c" "c < 2147482648" and r: "0 \<le> r" "r < 1"
    by (simp_all add: earlyEnv_def c_def r_def)
  from r have "0 \<le> r * 1000" "r * 1000 < 1000" by simp_all
  then have "0 \<le> \<lfloor>r * 1000\<rfloor>" "\<lfloor>r * 1000\<rfloor> < 1000" by (simp_all add: floor_less_iff)
  with c have "0 \<le> c + \<lfloor>r * 1000\<rfloor>" "c + \<lfloor>r * 1000\<rfloor> < 2147483648" by linarith+
  then show ?thesis unfolding id by (rule conjI)
qed

lemma smallIds_snoc:
  assumes "smallIds fs" and "0 \<le> food_id f \<and> food_id f < 2147483648"
  shows "smallIds (fs @ [f])"
  using assms by (simp add: smallIds_def)

lemma smallIds_remove:
  assumes "smallIds fs"
  shows "smallIds (take i fs @ drop (Suc i) fs)"
proof -
  have "set (take i fs @ drop (Suc i) fs) \<subseteq> set fs"
    using set_take_subset [of i fs] set_drop_subset [of "Suc i" fs] by simp
  with assms show ?thesis unfolding smallIds_def by blast
qed

lemma generateFood_small:
  assumes "earlyEnv e" and "smallIds fs"
  shows "smallIds (fst (generateFood n opts fs e))"
  using assms
proof (induction n arbitrary: fs e)
  case 0
  then show ?case by simp
next
  case (Suc n)
  obtain f e1 where f: "randomFood opts e = (f, e1)" by (cases "randomFood opts e")
  from randomFood_small [OF Suc.prems(1), of opts] f
  have "0 \<le> food_id f \<and> food_id f < 2147483648" by simp
  with Suc.prems(2) have s1: "smallIds (fs @ [f])" by (rule smallIds_snoc)
  from randomFood_srcs [of opts e] f have "srcs e1 = srcs e" by simp
  then have "earlyEnv e1 = earlyEnv e" by (rule earlyEnv_srcs)
  with Suc.prems(1) have e1: "earlyEnv e1" by simp
  from Suc.IH [OF e1 s1] f show ?case by simp
qed

lemma eatFoods_small:
  assumes "earlyEnv e" and "smallIds fs"
  shows "smallIds (snd (fst (eatFoods a n opts ps fs e)))"
  using assms
proof (induction n arbitrary: ps fs e)
  case 0
  then show ?case by simp
next
  case (Suc i)
  let ?pl = "ps ! a"
  let ?ps1 = "ps[a := ?pl\<lparr>score := score ?pl + food_value (fs ! i) * 10\<rparr>]"
  let ?fs1 = "take i fs @ drop (Suc i) fs"
  obtain r e1 where m: "Math_random e = (r, e1)" by (cases "Math_random e")
  obtain f e2 where f: "randomFood opts e1 = (f, e2)" by (cases "randomFood opts e1")
  from Math_random_srcs [of e] m have "srcs e1 = srcs e" by simp
  then have "earlyEnv e1 = earlyEnv e" by (rule earlyEnv_srcs)
  with Suc.prems(1) have e1: "earlyEnv e1" by simp
  from randomFood_srcs [of opts e1] f have "srcs e2 = srcs e1" by simp
  then have "earlyEnv e2 = earlyEnv e1" by (rule earlyEnv_srcs)
  with e1 have e2: "earlyEnv e2" by simp
  from Suc.prems(2) have s1: "smallIds ?fs1" by (rule smallIds_remove)
  from randomFood_small [OF e1, of opts] f
  have "0 \<le> food_id f \<and> food_id f < 2147483648" by simp
  with s1 have s2: "smallIds (?fs1 @ [f])" by (rule smallIds_snoc)
  note ih0 = Suc.IH [OF Suc.prems, of ps]
    and ih1 = Suc.IH [OF e1 s1, of ?ps1]
    and ih2 = Suc.IH [OF e2 s2, of ?ps1]
  show ?case
    using ih0 ih1 ih2 m f by (simp add: Let_def)
qed

lemma foodSweep_small:
  assumes "earlyEnv e" and "smallIds fs"
  shows "smallIds (snd (fst (foodSweep as opts ps fs e)))"
  using assms
proof (induction as arbitrary: ps fs e)
  case Nil
  then show ?case by simp
next
  case (Cons a as)
  obtain ps1 fs1 e1 where c: "eatFoods a (length fs) opts ps fs e = ((ps1, fs1), e1)"
    by (metis prod.exhaust)
  from eatFoods_small [OF Cons.prems, of a "length fs" opts ps] c have s1: "smallIds fs1" by simp
  from eatFoods_srcs [of a "length fs" opts ps fs e] c have "srcs e1 = srcs e" by simp
  then have "earlyEnv e1 = earlyEnv e" by (rule earlyEnv_srcs)
  with Cons.prems(1) have e1: "earlyEnv e1" by simp
  from Cons.IH [OF e1 s1, of ps1] c show ?case by simp
qed

lemma checkCollisions_small:
  assumes "earlyEnv e" and "smallIds (foods room)"
  shows "smallIds (foods (fst (checkCollisions room e)))"
proof -
  let ?ps = "map snd (players room)"
  let ?al = "aliveIndices ?ps"
  obtain ps1 e1 where a: "pvpOuter ?al ?ps e = (ps1, e1)" by (cases "pvpOuter ?al ?ps e")
  obtain ps2 fs2 e2 where b: "foodSweep ?al (options room) ps1 (foods room) e1 = ((ps2, fs2), e2)"
    by (metis prod.exhaust)
  from pvpOuter_srcs [of ?al ?ps e] a have "srcs e1 = srcs e" by simp
  then have "earlyEnv e1 = earlyEnv e" by (rule earlyEnv_srcs)
  with assms(1) have e1: "earlyEnv e1" by simp
  from foodSweep_small [OF e1 assms(2), of ?al "options room" ps1] b have "smallIds fs2" by simp
  then show ?thesis using a b by (simp add: checkCollisions_def Let_def)
qed

lemma GameRoom_update_small:
  assumes "earlyEnv e" and "smallIds (foods room)"
    and "GameRoom_update dt rs room e = (Inr room1, e1)"
  shows "smallIds (foods room1)"
proof -
  obtain r e2 where u: "updatePlayers dt rs (players room) e = (r, e2)"
    by (cases "updatePlayers dt rs (players room) e")
  from updatePlayers_srcs [of dt rs "players room" e] u have "srcs e2 = srcs e" by simp
  then have "earlyEnv e2 = earlyEnv e" by (rule earlyEnv_srcs)
  with assms(1) have e2: "earlyEnv e2" by simp
  show ?thesis
  proof (cases r)
    case (Inl err)
    with u assms(3) show ?thesis by (simp add: GameRoom_update_def)
  next
    case (Inr kps)
    obtain room2 e3 where c: "checkCollisions (room\<lparr>players := kps\<rparr>) e2 = (room2, e3)"
      by (cases "checkCollisions (room\<lparr>players := kps\<rparr>) e2")
    from assms(2) have "smallIds (foods (room\<lparr>players := kps\<rparr>))" by simp
    from checkCollisions_small [OF e2 this] c have s2: "smallIds (foods room2)" by simp
    from checkCollisions_srcs [of "room\<lparr>players := kps\<rparr>" e2] c have "srcs e3 = srcs e2" by simp
    then have "earlyEnv e3 = earlyEnv e2" by (rule earlyEnv_srcs)
    with e2 have e3: "earlyEnv e3" by simp
    from generateFood_small [OF e3 s2, of 10 "options room2"]
    have s3: "smallIds (fst (generateFood 10 (options room2) (foods room2) e3))" .
    from u Inr c assms(3) s2 s3 show ?thesis
      by (auto simp add: GameRoom_update_def Let_def split_def split: if_splits)
  qed
qed

lemma step_small:
  assumes "earlyEnv e" and "smallIds (foods room)"
    and "step rs c room e = (Inr room1, e1)"
  shows "smallIds (foods room1)"
proof (cases c)
  case (Tick dt)
  with assms(3) have "GameRoom_update dt rs room e = (Inr room1, e1)" by (simp add: step_def)
  with assms(1,2) show ?thesis by (rule GameRoom_update_small)
next
  case (AddPlayer ident sock nm)
  with assms(3) have "foods room1 = foods room"
    by (auto simp add: step_def addPlayer_def Let_def split_def)
  with assms(2) show ?thesis by simp
next
  case (SetTarget k tx ty)
  with assms(3) have "foods room1 = foods room"
    by (auto simp add: step_def split: option.splits)
  with assms(2) show ?thesis by simp
next
  case (UseDash k)
  with assms(3) have "foods room1 = foods room"
    by (auto simp add: step_def Let_def split_def split: option.splits)
  with assms(2) show ?thesis by simp
next
  case (TakeDamage k amount a)
  with assms(3) have "foods room1 = foods room"
    by (auto simp add: step_def Let_def split_def split: option.splits)
  with assms(2) show ?thesis by simp
next
  case (Spawn k)
  with assms(3) have "foods room1 = foods room"
    by (auto simp add: step_def Let_def split_def split: option.splits)
  with assms(2) show ?thesis by simp
qed

lemma run_small:
  assumes "earlyEnv e" and "smallIds (foods room)"
    and "run rs cs room e = (Inr room1, e1)"
  shows "smallIds (foods room1)"
  using assms
proof (induction cs arbitrary: room e)
  case Nil
  then show ?case by simp
next
  case (Cons c cs)
  obtain r e2 where s: "step rs c room e = (r, e2)" by (cases "step rs c room e")
  from step_srcs [of rs c room e] s have "srcs e2 = srcs e" by simp
  then have "earlyEnv e2 = earlyEnv e" by (rule earlyEnv_srcs)
  with Cons.prems(1) have e2: "earlyEnv e2" by simp
  show ?case
  proof (cases r)
    case (Inl err)
    with s Cons.prems(3) show ?thesis by simp
  next
    case (Inr room2)
    with s Cons.prems(3) have r: "run rs cs room2 e2 = (Inr room1, e1)" by simp
    from Inr s have "step rs c room e = (Inr room2, e2)" by simp
    with Cons.prems(1,2) have "smallIds (foods room2)" by (rule step_small)
    from Cons.IH [OF e2 this r] show ?thesis .
  qed
qed

lemma earlyEnv_envAt:
  assumes "0 \<le> c" and "c < 2147482648"
  shows "earlyEnv (envAt c)"
  using assms by (simp add: earlyEnv_def envAt_def)

lemma clock_envAt:
  assumes "srcs e = srcs (envAt c)"
  shows "clock e k = c"
  using assms by (simp add: srcs_def envAt_def)

lemma startRoom_unbroken: "allPlayersUnbroken startRoom"
proof -
  have "allPlayersUnbroken emptyRoom" by (simp add: allPlayersUnbroken_def emptyRoom_def)
  moreover have "unbrokenChain player0" unfolding player0_def by (rule Player_new_unbroken)
  ultimately show ?thesis unfolding startRoom_def by (rule addPlayer_unbroken)
qed

lemma startRoom_foods: "foods startRoom = []"
  by (simp add: startRoom_def addPlayer_def emptyRoom_def Let_def split_def)

lemma run_encodes:
  assumes "0 \<le> c" and "c < 2147482648"
  shows "\<exists>room1 e1 b.
           run rs cs startRoom (envAt c) = (Inr room1, e1) \<and>
           fst (encodeSetElements room1 e1)
             = Inr ([U8 48, U8 (word_of_int (c mod 65536)),
                     U8 (word_of_int (c mod 65536 div 256)), U8 0] @ b)"
proof -
  from run_unbroken [OF startRoom_unbroken, of rs cs "envAt c"] obtain room1 e1 where
    r: "run rs cs startRoom (envAt c) = (Inr room1, e1)" and u: "allPlayersUnbroken room1" by blast
  have "smallIds (foods startRoom)" by (simp add: startRoom_foods smallIds_def)
  with earlyEnv_envAt [OF assms] have s: "smallIds (foods room1)" using r by (rule run_small)
  from run_srcs [of rs cs startRoom "envAt c"] r have "srcs e1 = srcs (envAt c)" by simp
  then have c: "clock e1 (clockReads e1) = c" by (rule clock_envAt)
  from encodeSetElements_ok [OF u s, of e1] obtain b where
    "fst (encodeSetElements room1 e1)
       = Inr ([U8 48, U8 (word_of_int (clock e1 (clockReads e1) mod 65536)),
               U8 (word_of_int (clock e1 (clockReads e1) mod 65536 div 256)), U8 0] @ b)" by blast
  with r show ?thesis unfolding c by blast
qed

subsection \<open>One room, two readings of the clock\<close>

lemma encodeSetElements_two_clocks:
  "(\<exists>err. fst (encodeSetElements room e) = Inl err \<and> fst (encodeSetElements room e') = Inl err) \<or>
   (\<exists>out out'.
      fst (encodeSetElements room e) = Inr out \<and> fst (encodeSetElements room e') = Inr out' \<and>
      length out = length out' \<and> out ! 0 = U8 48 \<and> out' ! 0 = U8 48 \<and>
      drop 3 out = drop 3 out' \<and>
      (out = out' \<longleftrightarrow>
         clock e (clockReads e) mod 65536 = clock e' (clockReads e') mod 65536))"
proof (cases "writes (setElementsBody room)")
  case (Inl err)
  then have "fst (encodeSetElements room e) = Inl err" "fst (encodeSetElements room e') = Inl err"
    by (simp_all add: encodeSetElements_eq)
  then show ?thesis by blast
next
  case (Inr b)
  show ?thesis
  proof (cases "4 + sum_list (map wire_size b) > bufferSize room")
    case True
    with Inr have "fst (encodeSetElements room e) = Inl RangeError"
      "fst (encodeSetElements room e') = Inl RangeError"
      by (simp_all add: encodeSetElements_eq)
    then show ?thesis by blast
  next
    case False
    define s where "s = clock e (clockReads e) mod 65536"
    define t where "t = clock e' (clockReads e') mod 65536"
    define out where "out = [U8 48, U8 (word_of_int s), U8 (word_of_int (s div 256)), U8 0] @ b"
    define out' where "out' = [U8 48, U8 (word_of_int t), U8 (word_of_int (t div 256)), U8 0] @ b"
    have r: "0 \<le> s" "s < 65536" "0 \<le> t" "t < 65536" by (simp_all add: s_def t_def)
    from Inr False have o: "fst (encodeSetElements room e) = Inr out"
      "fst (encodeSetElements room e') = Inr out'"
      by (simp_all add: encodeSetElements_eq out_def out'_def s_def t_def)
    have l: "length out = length out'" by (simp add: out_def out'_def)
    have h: "out ! 0 = U8 48" "out' ! 0 = U8 48" by (simp_all add: out_def out'_def)
    have d: "drop 3 out = drop 3 out'" by (simp add: out_def out'_def)
    have "out = out' \<longleftrightarrow>
          ((word_of_int s :: 8 word) = word_of_int t \<and>
           (word_of_int (s div 256) :: 8 word) = word_of_int (t div 256))"
      by (simp add: out_def out'_def)
    also have "\<dots> \<longleftrightarrow> s = t" using r by (rule timestamp_bytes_eq)
    finally have "out = out' \<longleftrightarrow>
        clock e (clockReads e) mod 65536 = clock e' (clockReads e') mod 65536"
      unfolding s_def t_def .
    with o l h d show ?thesis by blast
  qed
qed

subsection \<open>Two runs with the same readings\<close>

lemma Date_now_same:
  assumes "sameReadings e e'"
  shows "fst (Date_now e) = fst (Date_now e') \<and> sameReadings (snd (Date_now e)) (snd (Date_now e'))"
proof -
  from assms have c: "\<And>k. clock e (clockReads e + k) = clock e' (clockReads e' + k)"
    and r: "\<And>k. random e (randomDraws e + k) = random e' (randomDraws e' + k)"
    by (simp_all add: sameReadings_def)
  from c [of 0] have "fst (Date_now e) = fst (Date_now e')" by (simp add: Date_now_def)
  moreover have "sameReadings (snd (Date_now e)) (snd (Date_now e'))"
    using c [of "Suc k" for k] r by (simp add: sameReadings_def Date_now_def)
  ultimately show ?thesis ..
qed

lemma Math_random_same:
  assumes "sameReadings e e'"
  shows "fst (Math_random e) = fst (Math_random e') \<and>
         sameReadings (snd (Math_random e)) (snd (Math_random e'))"
proof -
  from assms have c: "\<And>k. clock e (clockReads e + k) = clock e' (clockReads e' + k)"
    and r: "\<And>k. random e (randomDraws e + k) = random e' (randomDraws e' + k)"
    by (simp_all add: sameReadings_def)
  from r [of 0] have "fst (Math_random e) = fst (Math_random e')" by (simp add: Math_random_def)
  moreover have "sameReadings (snd (Math_random e)) (snd (Math_random e'))"
    using r [of "Suc k" for k] c by (simp add: sameReadings_def Math_random_def)
  ultimately show ?thesis ..
qed

lemma Food_new_same:
  assumes "sameReadings e e'"
  shows "fst (Food_new fx fy v e) = fst (Food_new fx fy v e') \<and>
         sameReadings (snd (Food_new fx fy v e)) (snd (Food_new fx fy v e'))"
proof -
  note a = Date_now_same [OF assms]
  note b = Math_random_same [OF a [THEN conjunct2]]
  show ?thesis using a b by (simp add: Food_new_def Let_def split_def)
qed

lemma randomFood_same:
  assumes "sameReadings e e'"
  shows "fst (randomFood opts e) = fst (randomFood opts e') \<and>
         sameReadings (snd (randomFood opts e)) (snd (randomFood opts e'))"
proof -
  note a = Math_random_same [OF assms]
  note b = Math_random_same [OF a [THEN conjunct2]]
  note c = Math_random_same [OF b [THEN conjunct2]]
  note d = Food_new_same [OF c [THEN conjunct2]]
  show ?thesis using a b c d by (simp add: randomFood_def Let_def split_def)
qed

lemma generateFood_same:
  assumes "sameReadings e e'"
  shows "fst (generateFood n opts fs e) = fst (generateFood n opts fs e') \<and>
         sameReadings (snd (generateFood n opts fs e)) (snd (generateFood n opts fs e'))"
  using assms
proof (induction n arbitrary: fs e e')
  case 0
  then show ?case by simp
next
  case (Suc n)
  note a = randomFood_same [OF Suc.prems, of opts]
  note ih = Suc.IH [OF a [THEN conjunct2], of "fs @ [fst (randomFood opts e)]"]
  show ?case using a ih by (simp add: Let_def split_def)
qed

lemma spawn_same:
  assumes "sameReadings e e'"
  shows "fst (spawn room p e) = fst (spawn room p e') \<and>
         sameReadings (snd (spawn room p e)) (snd (spawn room p e'))"
proof -
  note a = Math_random_same [OF assms]
  note b = Math_random_same [OF a [THEN conjunct2]]
  show ?thesis using a b by (simp add: spawn_def Let_def split_def)
qed

lemma randomColor_same:
  assumes "sameReadings e e'"
  shows "fst (randomColor e) = fst (randomColor e') \<and>
         sameReadings (snd (randomColor e)) (snd (randomColor e'))"
  using Math_random_same [OF assms] by (simp add: randomColor_def Let_def split_def)

lemma Player_new_same:
  assumes "sameReadings e e'"
  shows "fst (Player_new ident sock nm e) = fst (Player_new ident sock nm e') \<and>
         sameReadings (snd (Player_new ident sock nm e)) (snd (Player_new ident sock nm e'))"
proof -
  note a = randomColor_same [OF assms]
  note b = Math_random_same [OF a [THEN conjunct2]]
  note c = Math_random_same [OF b [THEN conjunct2]]
  note d = Math_random_same [OF c [THEN conjunct2]]
  note f = Date_now_same [OF d [THEN conjunct2]]
  show ?thesis using a b c d f by (simp add: Player_new_def Let_def split_def)
qed

lemma validateDash_same:
  assumes "sameReadings e e'"
  shows "fst (validateDash p e) = fst (validateDash p e') \<and>
         sameReadings (snd (validateDash p e)) (snd (validateDash p e'))"
  using Date_now_same [OF assms] by (simp add: validateDash_def Let_def split_def)

lemma useDash_same:
  assumes "sameReadings e e'"
  shows "fst (useDash p e) = fst (useDash p e') \<and>
         sameReadings (snd (useDash p e)) (snd (useDash p e'))"
proof -
  note a = validateDash_same [OF assms, of p]
  note b = Date_now_same [OF a [THEN conjunct2]]
  show ?thesis using a b by (simp add: useDash_def Let_def split_def)
qed

lemma die_same:
  assumes "sameReadings e e'"
  shows "fst (die p e) = fst (die p e') \<and> sameReadings (snd (die p e)) (snd (die p e'))"
  using Date_now_same [OF assms] by (simp add: die_def Let_def split_def)

lemma takeDamage_same:
  assumes "sameReadings e e'"
  shows "fst (takeDamage p amount att e) = fst (takeDamage p amount att e') \<and>
         sameReadings (snd (takeDamage p amount att e)) (snd (takeDamage p amount att e'))"
  using die_same [OF assms, of p] assms by (simp add: takeDamage_def Let_def split_def)

lemma update_same:
  assumes "sameReadings e e'"
  shows "fst (update dt rs p e) = fst (update dt rs p e') \<and>
         sameReadings (snd (update dt rs p e)) (snd (update dt rs p e'))"
proof -
  note a = Date_now_same [OF assms]
  note b = spawn_same [OF a [THEN conjunct2]]
  show ?thesis using a b assms
    by (simp add: update_def Let_def split_def split: option.split sum.split)
qed

lemma damageAt_same:
  assumes "sameReadings e e'"
  shows "fst (damageAt v a ps e) = fst (damageAt v a ps e') \<and>
         sameReadings (snd (damageAt v a ps e)) (snd (damageAt v a ps e'))"
  using takeDamage_same [OF assms, of "ps ! v" collisionDamage "Other (ps ! a)"]
  by (simp add: damageAt_def Let_def split_def split: attacker.split)

lemma collidePair_same:
  assumes "sameReadings e e'"
  shows "fst (collidePair a b ps e) = fst (collidePair a b ps e') \<and>
         sameReadings (snd (collidePair a b ps e)) (snd (collidePair a b ps e'))"
  using damageAt_same [OF assms, of b a ps] damageAt_same [OF assms, of a b ps] assms
  by (simp add: collidePair_def Let_def)

lemma pvpInner_same:
  assumes "sameReadings e e'"
  shows "fst (pvpInner a bs ps e) = fst (pvpInner a bs ps e') \<and>
         sameReadings (snd (pvpInner a bs ps e)) (snd (pvpInner a bs ps e'))"
  using assms
proof (induction bs arbitrary: ps e e')
  case Nil
  then show ?case by simp
next
  case (Cons b bs)
  note c = collidePair_same [OF Cons.prems, of a b ps]
  note ih = Cons.IH [OF c [THEN conjunct2], of "fst (collidePair a b ps e)"]
  show ?case using c ih by (simp add: Let_def split_def)
qed

lemma pvpOuter_same:
  assumes "sameReadings e e'"
  shows "fst (pvpOuter as ps e) = fst (pvpOuter as ps e') \<and>
         sameReadings (snd (pvpOuter as ps e)) (snd (pvpOuter as ps e'))"
  using assms
proof (induction as arbitrary: ps e e')
  case Nil
  then show ?case by simp
next
  case (Cons a as)
  note c = pvpInner_same [OF Cons.prems, of a as ps]
  note ih = Cons.IH [OF c [THEN conjunct2], of "fst (pvpInner a as ps e)"]
  show ?case using c ih by (simp add: Let_def split_def)
qed

lemma eatFoods_same:
  assumes "sameReadings e e'"
  shows "fst (eatFoods a n opts ps fs e) = fst (eatFoods a n opts ps fs e') \<and>
         sameReadings (snd (eatFoods a n opts ps fs e)) (snd (eatFoods a n opts ps fs e'))"
  using assms
proof (induction n arbitrary: ps fs e e')
  case 0
  then show ?case by simp
next
  case (Suc i)
  let ?pl = "ps ! a"
  let ?ps1 = "ps[a := ?pl\<lparr>score := score ?pl + food_value (fs ! i) * 10\<rparr>]"
  let ?fs1 = "take i fs @ drop (Suc i) fs"
  note m = Math_random_same [OF Suc.prems]
  note f = randomFood_same [OF m [THEN conjunct2], of opts]
  note ih0 = Suc.IH [OF Suc.prems, of ps fs]
    and ih1 = Suc.IH [OF m [THEN conjunct2], of ?ps1 ?fs1]
    and ih2 = Suc.IH [OF f [THEN conjunct2], of ?ps1 "?fs1 @ [fst (randomFood opts (snd (Math_random e)))]"]
  show ?case
    using m f ih0 ih1 ih2 by (simp add: Let_def split_def)
qed

lemma foodSweep_same:
  assumes "sameReadings e e'"
  shows "fst (foodSweep as opts ps fs e) = fst (foodSweep as opts ps fs e') \<and>
         sameReadings (snd (foodSweep as opts ps fs e)) (snd (foodSweep as opts ps fs e'))"
  using assms
proof (induction as arbitrary: ps fs e e')
  case Nil
  then show ?case by simp
next
  case (Cons a as)
  note c = eatFoods_same [OF Cons.prems, of a "length fs" opts ps fs]
  note ih = Cons.IH [OF c [THEN conjunct2],
      of "fst (fst (eatFoods a (length fs) opts ps fs e))" "snd (fst (eatFoods a (length fs) opts ps fs e))"]
  show ?case using c ih by (simp add: Let_def split_def)
qed

lemma checkCollisions_same:
  assumes "sameReadings e e'"
  shows "fst (checkCollisions room e) = fst (checkCollisions room e') \<and>
         sameReadings (snd (checkCollisions room e)) (snd (checkCollisions room e'))"
proof -
  let ?ps = "map snd (players room)"
  note a = pvpOuter_same [OF assms, of "aliveIndices ?ps" ?ps]
  note b = foodSweep_same [OF a [THEN conjunct2], of "aliveIndices ?ps" "options room"
      "fst (pvpOuter (aliveIndices ?ps) ?ps e)" "foods room"]
  show ?thesis using a b by (simp add: checkCollisions_def Let_def split_def)
qed

lemma updatePlayers_same:
  assumes "sameReadings e e'"
  shows "fst (updatePlayers dt rs kps e) = fst (updatePlayers dt rs kps e') \<and>
         sameReadings (snd (updatePlayers dt rs kps e)) (snd (updatePlayers dt rs kps e'))"
  using assms
proof (induction kps arbitrary: e e')
  case Nil
  then show ?case by simp
next
  case (Cons kp kps)
  obtain k p where kp: "kp = (k, p)" by (cases kp)
  obtain r e1 where u: "update dt rs p e = (r, e1)" by (cases "update dt rs p e")
  obtain r' e1' where u': "update dt rs p e' = (r', e1')" by (cases "update dt rs p e'")
  from update_same [OF Cons.prems, of dt rs p] u u' have rr: "r' = r" and s1: "sameReadings e1 e1'"
    by simp_all
  obtain q e2 where v: "updatePlayers dt rs kps e1 = (q, e2)" by (cases "updatePlayers dt rs kps e1")
  obtain q' e2' where v': "updatePlayers dt rs kps e1' = (q', e2')" by (cases "updatePlayers dt rs kps e1'")
  from Cons.IH [OF s1] v v' have qq: "q' = q" and s2: "sameReadings e2 e2'" by simp_all
  show ?case
    using u u' v v' rr qq s1 s2 by (simp add: kp split: sum.split)
qed

lemma GameRoom_update_same:
  assumes "sameReadings e e'"
  shows "fst (GameRoom_update dt rs room e) = fst (GameRoom_update dt rs room e') \<and>
         sameReadings (snd (GameRoom_update dt rs room e)) (snd (GameRoom_update dt rs room e'))"
proof -
  obtain r e1 where u: "updatePlayers dt rs (players room) e = (r, e1)"
    by (cases "updatePlayers dt rs (players room) e")
  obtain r' e1' where u': "updatePlayers dt rs (players room) e' = (r', e1')"
    by (cases "updatePlayers dt rs (players room) e'")
  from updatePlayers_same [OF assms, of dt rs "players room"] u u'
  have rr: "r' = r" and s1: "sameReadings e1 e1'" by simp_all
  show ?thesis
  proof (cases r)
    case (Inl err)
    with u u' rr s1 show ?thesis by (simp add: GameRoom_update_def)
  next
    case (Inr kps)
    note c = checkCollisions_same [OF s1, of "room\<lparr>players := kps\<rparr>"]
    let ?room1 = "fst (checkCollisions (room\<lparr>players := kps\<rparr>) e1)"
    note g = generateFood_same [OF c [THEN conjunct2], of 10 "options ?room1" "foods ?room1"]
    from u u' rr Inr c g show ?thesis
      by (simp add: GameRoom_update_def Let_def split_def)
  qed
qed

lemma addPlayer_same:
  assumes "sameReadings e e'"
  shows "fst (addPlayer p room e) = fst (addPlayer p room e') \<and>
         sameReadings (snd (addPlayer p room e)) (snd (addPlayer p room e'))"
  using spawn_same [OF assms, of "options room" "p\<lparr>currentRoom := Some (room_id room)\<rparr>"]
  by (simp add: addPlayer_def Let_def split_def)

lemma step_same:
  assumes "sameReadings e e'"
  shows "fst (step rs c room e) = fst (step rs c room e') \<and>
         sameReadings (snd (step rs c room e)) (snd (step rs c room e'))"
proof (cases c)
  case (Tick dt)
  with GameRoom_update_same [OF assms, of dt rs room] show ?thesis by (simp add: step_def)
next
  case (AddPlayer ident sock nm)
  note a = Player_new_same [OF assms, of ident sock nm]
  note b = addPlayer_same [OF a [THEN conjunct2], of "fst (Player_new ident sock nm e)" room]
  from AddPlayer a b show ?thesis by (simp add: step_def Let_def split_def)
next
  case (SetTarget k tx ty)
  with assms show ?thesis by (simp add: step_def split: option.split)
next
  case (UseDash k)
  show ?thesis
  proof (cases "map_of (players room) k")
    case None
    with UseDash assms show ?thesis by (simp add: step_def)
  next
    case (Some p)
    with UseDash useDash_same [OF assms, of p] show ?thesis
      by (simp add: step_def Let_def split_def)
  qed
next
  case (TakeDamage k amount a)
  show ?thesis
  proof (cases "map_of (players room) k")
    case None
    with TakeDamage assms show ?thesis by (simp add: step_def)
  next
    case (Some p)
    note t = takeDamage_same [OF assms]
    from TakeDamage Some show ?thesis
      by (simp add: step_def Let_def split_def t [THEN conjunct1] t [THEN conjunct2]
          split: option.split attacker.split)
  qed
next
  case (Spawn k)
  show ?thesis
  proof (cases "map_of (players room) k")
    case None
    with Spawn assms show ?thesis by (simp add: step_def)
  next
    case (Some p)
    with Spawn spawn_same [OF assms, of "options room" p] show ?thesis
      by (simp add: step_def Let_def split_def)
  qed
qed

lemma run_same:
  assumes "sameReadings e e'"
  shows "fst (run rs cs room e) = fst (run rs cs room e') \<and>
         sameReadings (snd (run rs cs room e)) (snd (run rs cs room e'))"
  using assms
proof (induction cs arbitrary: room e e')
  case Nil
  then show ?case by simp
next
  case (Cons c cs)
  obtain r e1 where s: "step rs c room e = (r, e1)" by (cases "step rs c room e")
  obtain r' e1' where s': "step rs c room e' = (r', e1')" by (cases "step rs c room e'")
  from step_same [OF Cons.prems, of rs c room] s s' have rr: "r' = r" and s1: "sameReadings e1 e1'"
    by simp_all
  show ?case
  proof (cases r)
    case (Inl err)
    with s s' rr s1 show ?thesis by simp
  next
    case (Inr room1)
    with s s' rr Cons.IH [OF s1, of room1] show ?thesis by simp
  qed
qed

lemma encodeSetElements_same:
  assumes "sameReadings e e'"
  shows "fst (encodeSetElements room e) = fst (encodeSetElements room e') \<and>
         sameReadings (snd (encodeSetElements room e)) (snd (encodeSetElements room e'))"
proof -
  from Date_now_same [OF assms] have h: "clock e (clockReads e) = clock e' (clockReads e')"
    and s: "sameReadings (snd (Date_now e)) (snd (Date_now e'))"
    by (simp_all add: Date_now_def)
  have "snd (encodeSetElements room e) = snd (Date_now e)"
    "snd (encodeSetElements room e') = snd (Date_now e')"
    by (simp_all add: encodeSetElements_def Let_def split_def)
  with s have "sameReadings (snd (encodeSetElements room e)) (snd (encodeSetElements room e'))"
    by simp
  moreover have "fst (encodeSetElements room e) = fst (encodeSetElements room e')"
    by (simp add: encodeSetElements_eq h split: sum.split)
  ultimately show ?thesis by simp
qed

text \<open>
  Claim C2, as amended. What two runs have to share, besides the room they start from,
  the calls and the \<open>dt\<close> of every tick, is what they read from \<^verbatim>\<open>Date.now()\<close> and
  \<^verbatim>\<open>Math.random()\<close>. If from their start on the two runs get the same readings, then
  they return the same result (the same room, or the same error), and
  \<^verbatim>\<open>encodeSetElements\<close> of the room they return gives the same packet (or raises the
  same error) in both. Without this: \<^verbatim>\<open>encodeSetElements\<close> writes
  \<^verbatim>\<open>Date.now() & 0xFFFF\<close> at offsets 1 and 2 of the packet, and reads nothing else from
  outside the room; so for one and the same room, encoded at two moments, either both
  calls raise the same error, or both return packets of the same length, which start with
  the opcode 48 and agree from offset 3 on, and the two packets are identical exactly when
  the two readings of the clock agree modulo 65536.
\<close>

theorem encodeSetElements_two_runs:
  "(sameReadings e e' \<longrightarrow>
      fst (run rs cs room e) = fst (run rs cs room e') \<and>
      (\<forall>room1. fst (run rs cs room e) = Inr room1 \<longrightarrow>
         fst (encodeSetElements room1 (snd (run rs cs room e)))
           = fst (encodeSetElements room1 (snd (run rs cs room e'))))) \<and>
   ((\<exists>err. fst (encodeSetElements room e) = Inl err \<and> fst (encodeSetElements room e') = Inl err) \<or>
    (\<exists>out out'.
       fst (encodeSetElements room e) = Inr out \<and> fst (encodeSetElements room e') = Inr out' \<and>
       length out = length out' \<and> out ! 0 = U8 48 \<and> out' ! 0 = U8 48 \<and>
       drop 3 out = drop 3 out' \<and>
       (out = out' \<longleftrightarrow>
          clock e (clockReads e) mod 65536 = clock e' (clockReads e') mod 65536)))"
proof (intro conjI impI allI)
  assume s: "sameReadings e e'"
  from run_same [OF s, of rs cs room]
  show "fst (run rs cs room e) = fst (run rs cs room e')" by (rule conjunct1)
next
  fix room1
  assume s: "sameReadings e e'"
  from run_same [OF s, of rs cs room]
  have "sameReadings (snd (run rs cs room e)) (snd (run rs cs room e'))" by (rule conjunct2)
  from encodeSetElements_same [OF this, of room1]
  show "fst (encodeSetElements room1 (snd (run rs cs room e)))
           = fst (encodeSetElements room1 (snd (run rs cs room e')))" by (rule conjunct1)
next
  show "(\<exists>err. fst (encodeSetElements room e) = Inl err \<and> fst (encodeSetElements room e') = Inl err) \<or>
    (\<exists>out out'.
       fst (encodeSetElements room e) = Inr out \<and> fst (encodeSetElements room e') = Inr out' \<and>
       length out = length out' \<and> out ! 0 = U8 48 \<and> out' ! 0 = U8 48 \<and>
       drop 3 out = drop 3 out' \<and>
       (out = out' \<longleftrightarrow>
          clock e (clockReads e) mod 65536 = clock e' (clockReads e') mod 65536))"
    by (rule encodeSetElements_two_clocks)
qed

theorem encodeSetElements_two_runs_witness:
  "sameReadings (envAt 50000) (envAt 50000\<lparr>clockReads := 7, randomDraws := 3\<rparr>) \<and>
   (\<exists>room1.
      fst (run rooms0 [SetTarget 1001 3000 3000, Tick (1/60), UseDash 1001, Tick (1/60)] startRoom
             (envAt 50000)) = Inr room1 \<and>
      fst (run rooms0 [SetTarget 1001 3000 3000, Tick (1/60), UseDash 1001, Tick (1/60)] startRoom
             (envAt 50000\<lparr>clockReads := 7, randomDraws := 3\<rparr>)) = Inr room1 \<and>
      fst (encodeSetElements room1
             (snd (run rooms0 [SetTarget 1001 3000 3000, Tick (1/60), UseDash 1001, Tick (1/60)]
                     startRoom (envAt 50000))))
        = fst (encodeSetElements room1
             (snd (run rooms0 [SetTarget 1001 3000 3000, Tick (1/60), UseDash 1001, Tick (1/60)]
                     startRoom (envAt 50000\<lparr>clockReads := 7, randomDraws := 3\<rparr>))))) \<and>
   (\<exists>out out'.
      fst (encodeSetElements startRoom (envAt 50000)) = Inr out \<and>
      fst (encodeSetElements startRoom (envAt 50001)) = Inr out' \<and>
      length out = length out' \<and> drop 3 out = drop 3 out' \<and> out \<noteq> out') \<and>
   fst (encodeSetElements startRoom (envAt 50000)) = fst (encodeSetElements startRoom (envAt 115536))"
proof (intro conjI)
  let ?cs = "[SetTarget 1001 3000 3000, Tick (1/60), UseDash 1001, Tick (1/60)]"
  let ?e = "envAt 50000"
  let ?e' = "envAt 50000\<lparr>clockReads := 7, randomDraws := 3\<rparr>"
  show sr: "sameReadings ?e ?e'" by (simp add: sameReadings_def envAt_def)
  from run_unbroken [OF startRoom_unbroken, of rooms0 ?cs ?e] obtain room1 e1 where
    r: "run rooms0 ?cs startRoom ?e = (Inr room1, e1)" by blast
  then have f: "fst (run rooms0 ?cs startRoom ?e) = Inr room1" by simp
  from encodeSetElements_two_runs [of ?e ?e' rooms0 ?cs startRoom] sr
  have a: "fst (run rooms0 ?cs startRoom ?e) = fst (run rooms0 ?cs startRoom ?e')"
    and b: "\<forall>room1. fst (run rooms0 ?cs startRoom ?e) = Inr room1 \<longrightarrow>
         fst (encodeSetElements room1 (snd (run rooms0 ?cs startRoom ?e)))
           = fst (encodeSetElements room1 (snd (run rooms0 ?cs startRoom ?e')))"
    by blast+
  from b f have "fst (encodeSetElements room1 (snd (run rooms0 ?cs startRoom ?e)))
           = fst (encodeSetElements room1 (snd (run rooms0 ?cs startRoom ?e')))" by blast
  with a f show "\<exists>room1.
      fst (run rooms0 ?cs startRoom ?e) = Inr room1 \<and>
      fst (run rooms0 ?cs startRoom ?e') = Inr room1 \<and>
      fst (encodeSetElements room1 (snd (run rooms0 ?cs startRoom ?e)))
        = fst (encodeSetElements room1 (snd (run rooms0 ?cs startRoom ?e')))"
    by (intro exI [of _ room1]) simp
next
  have s: "smallIds (foods startRoom)" by (simp add: startRoom_foods smallIds_def)
  from encodeSetElements_ok [OF startRoom_unbroken s, of "envAt 50000"]
  obtain b where ok: "\<exists>out. fst (encodeSetElements startRoom (envAt 50000)) = Inr out" by blast
  have c: "clock (envAt 50000) (clockReads (envAt 50000)) mod 65536 = 50000"
    "clock (envAt 50001) (clockReads (envAt 50001)) mod 65536 = 50001"
    by (simp_all add: envAt_def)
  from encodeSetElements_two_runs [of "envAt 50000" "envAt 50001" rooms0 "[]" startRoom] ok
  obtain out out' where
    o: "fst (encodeSetElements startRoom (envAt 50000)) = Inr out"
       "fst (encodeSetElements startRoom (envAt 50001)) = Inr out'"
       "length out = length out'" "drop 3 out = drop 3 out'"
    and i: "out = out' \<longleftrightarrow>
         clock (envAt 50000) (clockReads (envAt 50000)) mod 65536
           = clock (envAt 50001) (clockReads (envAt 50001)) mod 65536"
    by auto
  from i have "out \<noteq> out'" unfolding c by simp
  with o show "\<exists>out out'.
      fst (encodeSetElements startRoom (envAt 50000)) = Inr out \<and>
      fst (encodeSetElements startRoom (envAt 50001)) = Inr out' \<and>
      length out = length out' \<and> drop 3 out = drop 3 out' \<and> out \<noteq> out'" by blast
next
  have s: "smallIds (foods startRoom)" by (simp add: startRoom_foods smallIds_def)
  from encodeSetElements_ok [OF startRoom_unbroken s, of "envAt 50000"]
  obtain b where ok: "\<exists>out. fst (encodeSetElements startRoom (envAt 50000)) = Inr out" by blast
  have c: "clock (envAt 50000) (clockReads (envAt 50000)) mod 65536 = 50000"
    "clock (envAt 115536) (clockReads (envAt 115536)) mod 65536 = 50000"
    by (simp_all add: envAt_def)
  from encodeSetElements_two_runs [of "envAt 50000" "envAt 115536" rooms0 "[]" startRoom] ok
  obtain out2 out2' where
    o2: "fst (encodeSetElements startRoom (envAt 50000)) = Inr out2"
       "fst (encodeSetElements startRoom (envAt 115536)) = Inr out2'"
    and i2: "out2 = out2' \<longleftrightarrow>
         clock (envAt 50000) (clockReads (envAt 50000)) mod 65536
           = clock (envAt 115536) (clockReads (envAt 115536)) mod 65536"
    by auto
  from i2 have "out2 = out2'" unfolding c by simp
  with o2 show "fst (encodeSetElements startRoom (envAt 50000)) = fst (encodeSetElements startRoom (envAt 115536))"
    by simp
qed

text \<open>
  Claim C2 as stated fails. Take the room that holds one spawned player and no food, and
  the calls \<^verbatim>\<open>setTarget(3000, 3000)\<close>, a tick of 1/60 s, \<^verbatim>\<open>useDash()\<close> and a second tick
  of 1/60 s. Run them twice, once while the clock reads 50000 and once while it reads
  50001, with the same random numbers. Both runs return a room, both packets are
  encoded without an error, and they differ: the byte at offset 1 is \<open>0x50\<close> in the
  first and \<open>0x51\<close> in the second.
\<close>

theorem two_runs_differ:
  "\<exists>roomA eA roomB eB outA outB.
     run rooms0 [SetTarget 1001 3000 3000, Tick (1/60), UseDash 1001, Tick (1/60)] startRoom (envAt 50000)
       = (Inr roomA, eA) \<and>
     run rooms0 [SetTarget 1001 3000 3000, Tick (1/60), UseDash 1001, Tick (1/60)] startRoom (envAt 50001)
       = (Inr roomB, eB) \<and>
     fst (encodeSetElements roomA eA) = Inr outA \<and>
     fst (encodeSetElements roomB eB) = Inr outB \<and>
     outA ! 1 = U8 80 \<and> outB ! 1 = U8 81 \<and> outA \<noteq> outB"
proof -
  let ?cs = "[SetTarget 1001 3000 3000, Tick (1/60), UseDash 1001, Tick (1/60)]"
  have "(0::int) \<le> 50000" "(50000::int) < 2147482648" by simp_all
  from run_encodes [OF this, of rooms0 ?cs] obtain roomA eA bA where
    rA: "run rooms0 ?cs startRoom (envAt 50000) = (Inr roomA, eA)"
    and oA: "fst (encodeSetElements roomA eA)
             = Inr ([U8 48, U8 (word_of_int (50000 mod 65536)),
                     U8 (word_of_int (50000 mod 65536 div 256)), U8 0] @ bA)" by blast
  have "(0::int) \<le> 50001" "(50001::int) < 2147482648" by simp_all
  from run_encodes [OF this, of rooms0 ?cs] obtain roomB eB bB where
    rB: "run rooms0 ?cs startRoom (envAt 50001) = (Inr roomB, eB)"
    and oB: "fst (encodeSetElements roomB eB)
             = Inr ([U8 48, U8 (word_of_int (50001 mod 65536)),
                     U8 (word_of_int (50001 mod 65536 div 256)), U8 0] @ bB)" by blast
  define outA where "outA = [U8 48, U8 (word_of_int (50000 mod 65536)),
                     U8 (word_of_int (50000 mod 65536 div 256)), U8 0] @ bA"
  define outB where "outB = [U8 48, U8 (word_of_int (50001 mod 65536)),
                     U8 (word_of_int (50001 mod 65536 div 256)), U8 0] @ bB"
  have a: "outA ! 1 = U8 80" by (simp add: outA_def)
  have b: "outB ! 1 = U8 81" by (simp add: outB_def)
  have "outA ! 1 \<noteq> outB ! 1" unfolding a b by simp
  then have "outA \<noteq> outB" by auto
  with rA rB oA oB a b show ?thesis unfolding outA_def [symmetric] outB_def [symmetric] by blast
qed


end
